theory Spec2Isabelle
  imports
    Complex_Main
    "HOL-Library.Char_ord"
    "HOL-Library.List_Lexorder"
    "HOL-Library.Sublist"
    "HOL-Library.Multiset"
begin

section \<open>Strings\<close>

text \<open>
  The memory manager keeps its entries in text files and reads them back with string
  operations, so the model starts with those. A JavaScript string is modelled as a
  \<^typ>\<open>string\<close>: each \<^typ>\<open>char\<close> stands for one UTF-16 code unit below 256.
\<close>

definition NL :: char where
  "NL = CHR 0x0A"

text \<open>The line terminators of a regular expression (\<open>.\<close>, and \<open>^\<close>/\<open>$\<close> under the
  \<open>m\<close> flag): line feed and carriage return (U+2028 and U+2029 lie outside the
  modelled range).\<close>

definition is_lt :: "char \<Rightarrow> bool" where
  "is_lt c = (c = CHR 0x0A \<or> c = CHR 0x0D)"

text \<open>What \<open>String.prototype.trim\<close> removes, as far as the modelled range goes: tab,
  line feed, vertical tab, form feed, carriage return, space and the no-break space.\<close>

definition is_ws :: "char \<Rightarrow> bool" where
  "is_ws c = (c = CHR 0x09 \<or> c = CHR 0x0A \<or> c = CHR 0x0B \<or> c = CHR 0x0C \<or> c = CHR 0x0D
     \<or> c = CHR 0x20 \<or> c = CHR 0xA0)"

definition trim :: "string \<Rightarrow> string" where
  "trim s = rev (dropWhile is_ws (rev (dropWhile is_ws s)))"

definition startsWith :: "string \<Rightarrow> string \<Rightarrow> bool" where
  "startsWith s p = (take (length p) s = p)"

definition endsWith :: "string \<Rightarrow> string \<Rightarrow> bool" where
  "endsWith s p = (length p \<le> length s \<and> drop (length s - length p) s = p)"

text \<open>\<open>parts.join(sep)\<close>.\<close>

fun join :: "string \<Rightarrow> string list \<Rightarrow> string" where
  "join sep [] = []"
| "join sep [x] = x"
| "join sep (x # y # ys) = x @ sep @ join sep (y # ys)"

text \<open>Puts a character in front of the first piece of a split.\<close>

fun cons_first :: "char \<Rightarrow> string list \<Rightarrow> string list" where
  "cons_first c [] = [[c]]"
| "cons_first c (p # ps) = (c # p) # ps"

text \<open>\<open>s.split(sep)\<close> for a non-empty string separator: the pieces between the
  occurrences of \<open>sep\<close>, found from left to right; the empty string gives one empty
  piece. (The code never splits on the empty string.)\<close>

function split_on :: "string \<Rightarrow> string \<Rightarrow> string list" where
  "split_on sep [] = [[]]"
| "split_on sep (c # cs) =
     (if sep \<noteq> [] \<and> take (length sep) (c # cs) = sep
      then [] # split_on sep (drop (length sep) (c # cs))
      else cons_first c (split_on sep cs))"
  by pat_completeness auto
termination
  by (relation "measure (\<lambda>(sep, s). length s)") auto

text \<open>The regular expression \<open>/^---$/m\<close> matches at the head of \<open>s\<close>, given that the
  head of \<open>s\<close> is at the start of a line: three dashes, then the end of the text or a
  line terminator.\<close>

definition sep_here :: "string \<Rightarrow> bool" where
  "sep_here s = (take 3 s = ''---'' \<and> (case drop 3 s of [] \<Rightarrow> True | d # _ \<Rightarrow> is_lt d))"

text \<open>\<open>raw.split(/^---$/m)\<close>. The flag \<open>bol\<close> says whether the position is at the start
  of a line (the start of the text, or right after a line terminator). The matched
  dashes are dropped, the line terminators around them stay in the pieces.\<close>

function split_sep :: "bool \<Rightarrow> string \<Rightarrow> string list" where
  "split_sep bol [] = [[]]"
| "split_sep bol (c # cs) =
     (if bol \<and> sep_here (c # cs)
      then [] # split_sep False (drop 3 (c # cs))
      else cons_first c (split_sep (is_lt c) cs))"
  by pat_completeness auto
termination
  by (relation "measure (\<lambda>(bol, s). length s)") auto

text \<open>The decimal digits of a number, as a template literal prints it.\<close>

fun digits_of :: "nat \<Rightarrow> nat \<Rightarrow> string" where
  "digits_of 0 n = []"
| "digits_of (Suc fuel) n =
     (if n < 10 then [''0123456789'' ! n]
      else digits_of fuel (n div 10) @ [''0123456789'' ! (n mod 10)])"

definition string_of_nat :: "nat \<Rightarrow> string" where
  "string_of_nat n = digits_of (Suc n) n"

section \<open>Entries and their text form\<close>

text \<open>
  \<open>MemoryEntry\<close>. The fields \<open>id\<close> and \<open>type\<close> are named \<open>id_e\<close> and \<open>type_e\<close>. The
  TypeScript types of \<open>type\<close> and \<open>source\<close> are unions of string literals, which the
  parser does not check (it casts), so both are strings here.
\<close>

record MemoryEntry =
  id_e :: string
  type_e :: string
  content :: string
  tags :: "string list"
  createdAt :: string
  updatedAt :: string
  source :: string

definition serializeEntry :: "MemoryEntry \<Rightarrow> string" where
  "serializeEntry e = join [NL]
     [''id: '' @ id_e e,
      ''type: '' @ type_e e,
      ''tags: '' @ join '', '' (tags e),
      ''createdAt: '' @ createdAt e,
      ''updatedAt: '' @ updatedAt e,
      ''source: '' @ source e,
      [],
      content e,
      [],
      ''---'']"

text \<open>The character class \<open>[a-z_]\<close> under the \<open>i\<close> flag.\<close>

definition is_key_char :: "char \<Rightarrow> bool" where
  "is_key_char c = (c \<in> set ''abcdefghijklmnopqrstuvwxyzABCDEFGHIJKLMNOPQRSTUVWXYZ_'')"

text \<open>\<open>/^[a-z_]+: .+$/i.test(line)\<close>: a non-empty key of letters and underscores, a
  colon and a space, then at least one character, none of them a line terminator.\<close>

definition meta_line :: "string \<Rightarrow> bool" where
  "meta_line l =
     (takeWhile is_key_char l \<noteq> []
      \<and> take 2 (dropWhile is_key_char l) = '': ''
      \<and> drop 2 (dropWhile is_key_char l) \<noteq> []
      \<and> filter is_lt (drop 2 (dropWhile is_key_char l)) = [])"

definition html_comment :: "string \<Rightarrow> bool" where
  "html_comment l = (startsWith l ''<!--'' \<and> endsWith l ''-->'')"

text \<open>The loop over the lines of one block: \<open>meta\<close> collects the metadata,
  \<open>contentLines\<close> the content; after the first line that is neither a comment nor
  metadata every line is content.\<close>

fun scan_lines ::
  "bool \<Rightarrow> string list \<Rightarrow> (string \<rightharpoonup> string) \<Rightarrow> string list
     \<Rightarrow> (string \<rightharpoonup> string) \<times> string list" where
  "scan_lines inContent [] meta contentLines = (meta, contentLines)"
| "scan_lines inContent (line # rest) meta contentLines =
     (if inContent then scan_lines True rest meta (contentLines @ [line])
      else if html_comment line then scan_lines False rest meta contentLines
      else if meta_line line then
        scan_lines False rest
          (meta(trim (hd (split_on '': '' line))
                  \<mapsto> trim (join '': '' (tl (split_on '': '' line)))))
          contentLines
      else scan_lines True rest meta (contentLines @ [line]))"

text \<open>\<open>x ?? d\<close> on a looked-up key: only a missing key takes the default.\<close>

definition nullish :: "string option \<Rightarrow> string \<Rightarrow> string" where
  "nullish x d = (case x of None \<Rightarrow> d | Some v \<Rightarrow> v)"

text \<open>One block of \<open>parseMemoryMd\<close>: \<open>None\<close> is the \<open>continue\<close> of the loop. \<open>now\<close> is
  the clock reading \<open>new Date().toISOString()\<close> that missing timestamps default to.\<close>

definition parse_block :: "string \<Rightarrow> string \<Rightarrow> MemoryEntry option" where
  "parse_block now block =
     (case scan_lines False (split_on [NL] block) Map.empty [] of
        (meta, contentLines) \<Rightarrow>
          (if meta ''id'' = None \<or> meta ''id'' = Some [] \<or> trim (concat contentLines) = []
           then None
           else Some \<lparr>
             id_e = the (meta ''id''),
             type_e = nullish (meta ''type'') ''fact'',
             content = trim (join [NL] contentLines),
             tags = (case meta ''tags'' of
                       None \<Rightarrow> []
                     | Some t \<Rightarrow> if t = [] then [] else map trim (split_on '','' t)),
             createdAt = nullish (meta ''createdAt'') now,
             updatedAt = nullish (meta ''updatedAt'') now,
             source = nullish (meta ''source'') ''agent'' \<rparr>))"

definition blocks_of :: "string \<Rightarrow> string list" where
  "blocks_of raw = filter (\<lambda>b. b \<noteq> []) (map trim (split_sep True raw))"

definition parseMemoryMd :: "string \<Rightarrow> string \<Rightarrow> MemoryEntry list" where
  "parseMemoryMd now raw = List.map_filter (parse_block now) (blocks_of raw)"

text \<open>The text \<open># OpenPaw Long-Term Memory ... ---\<close> that \<open>upsertLongTerm\<close> and \<open>forget\<close>
  put in front of the entries, and the one \<open>init\<close> writes into a new file.\<close>

definition header :: "string \<Rightarrow> string" where
  "header now = ''# OpenPaw Long-Term Memory'' @ [NL, NL] @ ''Last updated: '' @ now
     @ [NL, NL] @ ''---'' @ [NL]"

definition init_header :: "string \<Rightarrow> string" where
  "init_header now = ''# OpenPaw Long-Term Memory'' @ [NL, NL] @ ''Created: '' @ now
     @ [NL, NL] @ ''---'' @ [NL]"

text \<open>\<open>today()\<close>: the date part of the clock reading.\<close>

definition today :: "string \<Rightarrow> string" where
  "today now = hd (split_on ''T'' now)"

section \<open>The memory manager\<close>

text \<open>
  The state of a \<open>MemoryManager\<close> and of the files it owns: \<open>MEMORY.md\<close> (\<open>None\<close> when
  the file does not exist), the files of the directory \<open>memory/\<close> with their names in
  the order \<open>readdir\<close> lists them, the rows of the FTS5 table \<open>memory_fts\<close> in insertion
  order, and the short-term window.

  Every operation takes the reading \<open>now\<close> of the clock; an operation that reads the
  clock several times gets the same reading each time. (Beside the timestamps of a
  saved entry, the readings date the header of \<open>MEMORY.md\<close>, name the log of the day
  and fill in the timestamps that a parsed block lacks.) \<open>uid\<close> is the value \<open>uuid()\<close>
  returns. The two capacities \<open>MAX_SHORT_TERM\<close> and \<open>MAX_FACTS\<close> are read from the
  environment (20 and 200 when unset) and are parameters here, natural numbers.
\<close>

record ShortTermMessage =
  role :: string
  content_m :: string
  timestamp :: int

record FtsRow =
  r_id :: string
  r_type :: string
  r_content :: string
  r_tags :: string
  r_source :: string
  r_created_at :: string
  r_updated_at :: string

record Store =
  memory_md :: "string option"
  daily_dir :: "(string \<times> string) list"
  memory_fts :: "FtsRow list"
  shortTerm :: "ShortTermMessage list"

definition md_files :: "(string \<times> string) list \<Rightarrow> (string \<times> string) list" where
  "md_files files = filter (\<lambda>f. endsWith (fst f) ''.md'') files"

definition readLongTerm :: "string \<Rightarrow> Store \<Rightarrow> MemoryEntry list" where
  "readLongTerm now st =
     (case memory_md st of None \<Rightarrow> [] | Some raw \<Rightarrow> parseMemoryMd now raw)"

definition readDaily :: "string \<Rightarrow> Store \<Rightarrow> MemoryEntry list" where
  "readDaily now st = concat (map (\<lambda>f. parseMemoryMd now (snd f)) (md_files (daily_dir st)))"

definition readAllEntries :: "string \<Rightarrow> Store \<Rightarrow> MemoryEntry list" where
  "readAllEntries now st = readLongTerm now st @ readDaily now st"

definition getEntry :: "string \<Rightarrow> string \<Rightarrow> Store \<Rightarrow> MemoryEntry option" where
  "getEntry now i st = find (\<lambda>e. id_e e = i) (readAllEntries now st)"

definition row_of :: "MemoryEntry \<Rightarrow> FtsRow" where
  "row_of e = \<lparr> r_id = id_e e, r_type = type_e e, r_content = content e,
     r_tags = join '' '' (tags e), r_source = source e,
     r_created_at = createdAt e, r_updated_at = updatedAt e \<rparr>"

definition rebuildIndex :: "string \<Rightarrow> Store \<Rightarrow> Store" where
  "rebuildIndex now st = st\<lparr>memory_fts := map row_of (readAllEntries now st)\<rparr>"

definition init :: "string \<Rightarrow> Store \<Rightarrow> Store" where
  "init now st =
     rebuildIndex now
       (case memory_md st of
          None \<Rightarrow> st\<lparr>memory_md := Some (init_header now)\<rparr>
        | Some raw \<Rightarrow> st)"

text \<open>\<open>fs.appendFile\<close>: a file that does not exist yet is created. (It is listed
  last here; the order of \<open>readdir\<close> is not specified, and no theorem below depends on
  it.)\<close>

definition append_file ::
  "string \<Rightarrow> string \<Rightarrow> (string \<times> string) list \<Rightarrow> (string \<times> string) list" where
  "append_file name text files =
     (if map_of files name = None then files @ [(name, text)]
      else map (\<lambda>f. if fst f = name then (fst f, snd f @ text) else f) files)"

definition appendDailyLog :: "string \<Rightarrow> MemoryEntry \<Rightarrow> Store \<Rightarrow> Store" where
  "appendDailyLog now entry st =
     st\<lparr>daily_dir := append_file (today now @ ''.md'') (serializeEntry entry @ [NL]) (daily_dir st)\<rparr>"

fun findIndex :: "('a \<Rightarrow> bool) \<Rightarrow> 'a list \<Rightarrow> nat option" where
  "findIndex P [] = None"
| "findIndex P (x # xs) = (if P x then Some 0 else map_option Suc (findIndex P xs))"

text \<open>\<open>xs.slice(start)\<close>: a negative start counts from the end.\<close>

definition slice_from :: "int \<Rightarrow> 'a list \<Rightarrow> 'a list" where
  "slice_from start xs =
     (if start < 0 then drop (nat (max (int (length xs) + start) 0)) xs
      else drop (nat (min start (int (length xs)))) xs)"

text \<open>The entry list \<open>upsertLongTerm\<close> writes back: the entry replaces the first one
  with its id or is pushed, then the list is sorted by \<open>updatedAt\<close> (a stable sort; the
  order of \<open>localeCompare\<close> on timestamps of one shape is the order of the characters)
  and cut to its last \<open>MAX_FACTS\<close> elements.\<close>

definition upsert_entries :: "nat \<Rightarrow> MemoryEntry \<Rightarrow> MemoryEntry list \<Rightarrow> MemoryEntry list" where
  "upsert_entries MAX_FACTS entry entries =
     slice_from (- int MAX_FACTS)
       (sort_key updatedAt
          (case findIndex (\<lambda>e. id_e e = id_e entry) entries of
             Some idx \<Rightarrow> entries[idx := entry]
           | None \<Rightarrow> entries @ [entry]))"

definition write_entries :: "string \<Rightarrow> MemoryEntry list \<Rightarrow> string" where
  "write_entries now entries = header now @ join [NL] (map serializeEntry entries)"

definition upsertLongTerm :: "nat \<Rightarrow> string \<Rightarrow> MemoryEntry \<Rightarrow> Store \<Rightarrow> Store" where
  "upsertLongTerm MAX_FACTS now entry st =
     st\<lparr>memory_md := Some (write_entries now
        (upsert_entries MAX_FACTS entry
           (parseMemoryMd now (case memory_md st of None \<Rightarrow> [] | Some raw \<Rightarrow> raw))))\<rparr>"

record SaveOptions =
  opt_id :: "string option"
  opt_type :: "string option"
  opt_tags :: "string list option"
  opt_source :: "string option"

text \<open>The entry \<open>save\<close> builds. \<open>options.id ? ... : null\<close> treats the empty id as no id
  when it looks for an existing entry, \<open>options.id ?? uuid()\<close> does not.\<close>

definition save_entry :: "string \<Rightarrow> string \<Rightarrow> string \<Rightarrow> SaveOptions \<Rightarrow> Store \<Rightarrow> MemoryEntry" where
  "save_entry now uid text options st =
     \<lparr> id_e = nullish (opt_id options) uid,
       type_e = nullish (opt_type options) ''fact'',
       content = trim text,
       tags = (case opt_tags options of None \<Rightarrow> [] | Some t \<Rightarrow> t),
       createdAt =
         (case (case opt_id options of
                  None \<Rightarrow> None
                | Some i \<Rightarrow> if i = [] then None else getEntry now i st) of
            None \<Rightarrow> now
          | Some existing \<Rightarrow> createdAt existing),
       updatedAt = now,
       source = nullish (opt_source options) ''agent'' \<rparr>"

definition index_upsert :: "MemoryEntry \<Rightarrow> FtsRow list \<Rightarrow> FtsRow list" where
  "index_upsert entry rows = filter (\<lambda>r. r_id r \<noteq> id_e entry) rows @ [row_of entry]"

definition save ::
  "nat \<Rightarrow> string \<Rightarrow> string \<Rightarrow> string \<Rightarrow> SaveOptions \<Rightarrow> Store \<Rightarrow> MemoryEntry \<times> Store" where
  "save MAX_FACTS now uid text options st =
     (let entry = save_entry now uid text options st;
          st1 = (if type_e entry = ''log'' then appendDailyLog now entry st
                 else upsertLongTerm MAX_FACTS now entry st)
      in (entry, st1\<lparr>memory_fts := index_upsert entry (memory_fts st1)\<rparr>))"

definition forget :: "string \<Rightarrow> string \<Rightarrow> Store \<Rightarrow> bool \<times> Store" where
  "forget now i st =
     (case memory_md st of
        None \<Rightarrow> (False, st)
      | Some raw \<Rightarrow>
          (if length (filter (\<lambda>e. id_e e \<noteq> i) (parseMemoryMd now raw))
                = length (parseMemoryMd now raw)
           then (False, st)
           else (True, st\<lparr>
             memory_md := Some (write_entries now
                 (filter (\<lambda>e. id_e e \<noteq> i) (parseMemoryMd now raw))),
             memory_fts := filter (\<lambda>r. r_id r \<noteq> i) (memory_fts st)\<rparr>)))"

subsection \<open>The short-term window and the end of a session\<close>

definition addToShortTerm :: "nat \<Rightarrow> ShortTermMessage \<Rightarrow> Store \<Rightarrow> Store" where
  "addToShortTerm MAX_SHORT_TERM msg st =
     st\<lparr>shortTerm :=
        (if length (shortTerm st @ [msg]) > MAX_SHORT_TERM then tl (shortTerm st @ [msg])
         else shortTerm st @ [msg])\<rparr>"

definition clearShortTerm :: "Store \<Rightarrow> Store" where
  "clearShortTerm st = st\<lparr>shortTerm := []\<rparr>"

definition session_summary :: "string option \<Rightarrow> ShortTermMessage list \<Rightarrow> string" where
  "session_summary agentSummary msgs =
     (case agentSummary of
        Some s \<Rightarrow> s
      | None \<Rightarrow>
          if length msgs > 0
          then ''Session ended with '' @ string_of_nat (length msgs)
            @ '' turns. Last user message: '' @ [CHR 0x22]
            @ (case rev (filter (\<lambda>m. role m = ''user'') msgs) of
                 [] \<Rightarrow> ''N/A''
               | m # _ \<Rightarrow> take 200 (content_m m))
            @ [CHR 0x22]
          else ''Empty session.'')"

definition flush_options :: "string \<Rightarrow> SaveOptions" where
  "flush_options now = \<lparr> opt_id = None, opt_type = Some ''log'',
     opt_tags = Some [''session-summary'', today now], opt_source = Some ''system'' \<rparr>"

definition flushSession :: "nat \<Rightarrow> string \<Rightarrow> string \<Rightarrow> string option \<Rightarrow> Store \<Rightarrow> Store" where
  "flushSession MAX_FACTS now uid agentSummary st =
     clearShortTerm (snd (save MAX_FACTS now uid
        (session_summary agentSummary (shortTerm st)) (flush_options now) st))"

subsection \<open>Search\<close>

text \<open>
  The SQLite engine is a library; two of its statements are modelled. The \<open>MATCH\<close>
  statement is a parameter \<open>fts5\<close> of \<open>search\<close>: given the query, the limit and the
  rows of the table it returns the matching rows with rank and snippet, or \<open>None\<close> when
  SQLite raises (a query that is not FTS5 syntax, for one). The \<open>LIKE\<close> statement of
  the \<open>catch\<close> branch is modelled as SQLite documents it, with the errors it raises;
  nothing catches those, so they leave \<open>search\<close>.
\<close>

text \<open>The limit is a JavaScript number. \<open>LIMIT\<close> tells an integral value from one that
  is not (a fraction, \<open>NaN\<close>, an infinity).\<close>

datatype number = Integral int | Not_integral

datatype error = String_too_big | Datatype_mismatch | Pattern_too_complex

text \<open>\<open>LIMIT ?\<close> takes a number that converts to a 64-bit integer without loss, the
  two ends of the range apart; any other raises \<open>datatype mismatch\<close>.\<close>

definition limit_value :: "number \<Rightarrow> int option" where
  "limit_value n =
     (case n of
        Integral i \<Rightarrow> if - (2 ^ 63) < i \<and> i < 2 ^ 63 - 1 then Some i else None
      | Not_integral \<Rightarrow> None)"

text \<open>The rows a \<open>LIMIT\<close> counter lets through: it is decremented for every row and
  stops the statement when it gets to zero, which a negative limit never does.\<close>

fun limit_rows :: "int \<Rightarrow> 'a list \<Rightarrow> 'a list" where
  "limit_rows n [] = []"
| "limit_rows n (x # xs) = (if n = 0 then [] else x # limit_rows (n - 1) xs)"

text \<open>The length in bytes of the UTF-8 text SQLite is given: a code unit below 128
  is one byte, the others of the modelled range are two.\<close>

definition utf8_length :: "string \<Rightarrow> nat" where
  "utf8_length s = length s + length (filter (\<lambda>c. 128 \<le> (of_char c :: nat)) s)"

text \<open>\<open>LIKE\<close> reads its two operands as C strings: up to the first NUL.\<close>

definition c_string :: "string \<Rightarrow> string" where
  "c_string s = takeWhile (\<lambda>c. c \<noteq> CHR 0x00) s"

definition lower_ascii :: "char \<Rightarrow> char" where
  "lower_ascii c =
     (case map_of (zip ''ABCDEFGHIJKLMNOPQRSTUVWXYZ'' ''abcdefghijklmnopqrstuvwxyz'') c of
        None \<Rightarrow> c
      | Some l \<Rightarrow> l)"

text \<open>The comparison of \<open>LIKE\<close>: \<open>%\<close> matches any run of characters, \<open>_\<close> any one
  character, and every other character matches itself, upper and lower case ASCII
  letters alike.\<close>

fun like :: "string \<Rightarrow> string \<Rightarrow> bool" where
  "like [] s = (s = [])"
| "like (p # ps) [] = (p = CHR ''%'' \<and> like ps [])"
| "like (p # ps) (c # cs) =
     (if p = CHR ''%'' then like ps (c # cs) \<or> like (p # ps) cs
      else (p = CHR ''_'' \<or> lower_ascii p = lower_ascii c) \<and> like ps cs)"

definition sql_like :: "string \<Rightarrow> string \<Rightarrow> bool" where
  "sql_like pattern v = like (c_string pattern) (c_string v)"

record SearchResult =
  entry :: MemoryEntry
  score :: real
  snippet :: string

record FtsHit =
  hit_row :: FtsRow
  hit_score :: real
  hit_snippet :: "string option"

definition entry_of_row :: "FtsRow \<Rightarrow> MemoryEntry" where
  "entry_of_row r = \<lparr> id_e = r_id r, type_e = r_type r, content = r_content r,
     tags = (if r_tags r = [] then [] else split_on '' '' (r_tags r)),
     createdAt = r_created_at r, updatedAt = r_updated_at r, source = r_source r \<rparr>"

definition match_result :: "FtsHit \<Rightarrow> SearchResult" where
  "match_result h = \<lparr> entry = entry_of_row (hit_row h), score = \<bar>hit_score h\<bar>,
     snippet = (case hit_snippet h of
                  None \<Rightarrow> take 120 (r_content (hit_row h))
                | Some s \<Rightarrow> s) \<rparr>"

definition like_result :: "FtsRow \<Rightarrow> SearchResult" where
  "like_result r = \<lparr> entry = entry_of_row r, score = 1, snippet = take 120 (r_content r) \<rparr>"

definition like_rows :: "string \<Rightarrow> FtsRow list \<Rightarrow> FtsRow list" where
  "like_rows pattern rows =
     filter (\<lambda>r. sql_like pattern (r_content r) \<or> sql_like pattern (r_tags r)) rows"

text \<open>
  \<open>SELECT ... WHERE content LIKE ? OR tags LIKE ? LIMIT ?\<close> with the pattern bound to
  both \<open>LIKE\<close>s. A text of more than 1000000000 bytes is refused when it is bound. The
  limit is checked when the statement starts. The length of the pattern is checked
  by the \<open>LIKE\<close> function, so on the first row that is read; none is read from an
  empty table or under the limit 0. A pattern of more than 50000 bytes is refused.
\<close>

definition like_statement :: "string \<Rightarrow> number \<Rightarrow> FtsRow list \<Rightarrow> error + FtsRow list" where
  "like_statement pattern limit rows =
     (if 1000000000 < utf8_length pattern then Inl String_too_big
      else case limit_value limit of
          None \<Rightarrow> Inl Datatype_mismatch
        | Some n \<Rightarrow>
            if n = 0 \<or> rows = [] then Inr []
            else if 50000 < utf8_length pattern then Inl Pattern_too_complex
            else Inr (limit_rows n (like_rows pattern rows)))"

text \<open>\<open>search\<close>: \<open>Inl\<close> is an error that leaves the method, \<open>Inr\<close> the results it
  returns.\<close>

definition search ::
  "(string \<Rightarrow> number \<Rightarrow> FtsRow list \<Rightarrow> FtsHit list option) \<Rightarrow> string \<Rightarrow> number \<Rightarrow> Store
     \<Rightarrow> error + SearchResult list" where
  "search fts5 query limit st =
     (if trim query = [] then Inr []
      else case fts5 query limit (memory_fts st) of
          Some hits \<Rightarrow> Inr (map match_result hits)
        | None \<Rightarrow>
            (case like_statement (''%'' @ query @ ''%'') limit (memory_fts st) of
               Inl err \<Rightarrow> Inl err
             | Inr rows \<Rightarrow> Inr (map like_result rows)))"

subsection \<open>Histories\<close>

text \<open>The calls a client makes, with the clock reading and the \<open>uuid()\<close> value of each,
  and the state after a list of calls.\<close>

datatype op =
    Save string string string SaveOptions
  | Forget string string
  | Flush string string "string option"
  | Add ShortTermMessage

fun exec :: "nat \<Rightarrow> nat \<Rightarrow> op \<Rightarrow> Store \<Rightarrow> Store" where
  "exec MAX_SHORT_TERM MAX_FACTS (Save now uid text options) st =
     snd (save MAX_FACTS now uid text options st)"
| "exec MAX_SHORT_TERM MAX_FACTS (Forget now i) st = snd (forget now i st)"
| "exec MAX_SHORT_TERM MAX_FACTS (Flush now uid agentSummary) st =
     flushSession MAX_FACTS now uid agentSummary st"
| "exec MAX_SHORT_TERM MAX_FACTS (Add msg) st = addToShortTerm MAX_SHORT_TERM msg st"

fun run :: "nat \<Rightarrow> nat \<Rightarrow> op list \<Rightarrow> Store \<Rightarrow> Store" where
  "run MAX_SHORT_TERM MAX_FACTS [] st = st"
| "run MAX_SHORT_TERM MAX_FACTS (c # cs) st =
     run MAX_SHORT_TERM MAX_FACTS cs (exec MAX_SHORT_TERM MAX_FACTS c st)"

text \<open>A memory directory that holds nothing yet, and the manager after \<open>init\<close> on it.\<close>

definition empty_store :: Store where
  "empty_store = \<lparr> memory_md = None, daily_dir = [], memory_fts = [], shortTerm = [] \<rparr>"

definition fresh :: "string \<Rightarrow> Store" where
  "fresh now = init now empty_store"

section \<open>Well-formed entries and calls\<close>

text \<open>
  The text form has no escapes, so it does not carry every entry. The predicates below
  describe the entries and the arguments it does carry; the theorems about stored
  entries are stated for them.
\<close>

definition rtrim :: "string \<Rightarrow> string" where
  "rtrim s = rev (dropWhile is_ws (rev s))"

text \<open>Not empty and no whitespace at either end: what \<open>trim\<close> leaves alone.\<close>

definition tight :: "string \<Rightarrow> bool" where
  "tight s = (s \<noteq> [] \<and> \<not> is_ws (hd s) \<and> \<not> is_ws (last s))"

text \<open>A metadata value that a line \<open>key: value\<close> gives back: tight and on one line.\<close>

definition field_ok :: "string \<Rightarrow> bool" where
  "field_ok s = (tight s \<and> filter is_lt s = [])"

definition tag_ok :: "string \<Rightarrow> bool" where
  "tag_ok t = (field_ok t \<and> CHR '','' \<notin> set t)"

text \<open>The regular expression \<open>/^---$/m\<close> matches nowhere in \<open>s\<close> (\<open>bol\<close>: the head of \<open>s\<close>
  is at the start of a line).\<close>

fun no_separator :: "bool \<Rightarrow> string \<Rightarrow> bool" where
  "no_separator bol [] = True"
| "no_separator bol (c # cs) = (\<not> (bol \<and> sep_here (c # cs)) \<and> no_separator (is_lt c) cs)"

definition meta_ok :: "MemoryEntry \<Rightarrow> bool" where
  "meta_ok e = (field_ok (id_e e) \<and> field_ok (type_e e) \<and> tags e \<noteq> [] \<and> list_all tag_ok (tags e)
     \<and> field_ok (createdAt e) \<and> field_ok (updatedAt e) \<and> field_ok (source e))"

definition wf_entry :: "MemoryEntry \<Rightarrow> bool" where
  "wf_entry e = (meta_ok e \<and> tight (content e) \<and> no_separator True (content e))"

definition meta_text :: "MemoryEntry \<Rightarrow> string" where
  "meta_text e = ''id: '' @ id_e e @ NL # ''type: '' @ type_e e @ NL # ''tags: '' @ join '', '' (tags e)
     @ NL # ''createdAt: '' @ createdAt e @ NL # ''updatedAt: '' @ updatedAt e @ NL # ''source: '' @ source e"

definition block_text :: "MemoryEntry \<Rightarrow> string" where
  "block_text e = meta_text e @ NL # NL # content e @ [NL]"

definition block_lines :: "MemoryEntry \<Rightarrow> string list \<Rightarrow> string list" where
  "block_lines e ls = (''id: '' @ id_e e) # (''type: '' @ type_e e) # (''tags: '' @ join '', '' (tags e)) #
     (''createdAt: '' @ createdAt e) # (''updatedAt: '' @ updatedAt e) # (''source: '' @ source e) # [] # ls"

text \<open>The text of a daily log that holds the entries \<open>es\<close>.\<close>

definition log_text :: "MemoryEntry list \<Rightarrow> string" where
  "log_text es = concat (map (\<lambda>e. serializeEntry e @ [NL]) es)"

definition header_text :: "string \<Rightarrow> string \<Rightarrow> string" where
  "header_text label now = ''# OpenPaw Long-Term Memory'' @ [NL, NL] @ label @ now @ [NL]"

subsection \<open>Sample values\<close>

definition t1 :: string where "t1 = ''2026-03-01T09:00:00.000Z''"
definition t2 :: string where "t2 = ''2026-03-01T09:05:00.000Z''"
definition t3 :: string where "t3 = ''2026-03-02T08:00:00.000Z''"

definition sample_entry :: MemoryEntry where
  "sample_entry = \<lparr> id_e = ''m1'', type_e = ''fact'',
     content = '' Dentist on Tuesday'' @ [NL] @ ''3pm '' @ [NL],
     tags = [''health'', ''to do''], createdAt = t1, updatedAt = t2, source = ''user'' \<rparr>"

definition comma_entry :: MemoryEntry where
  "comma_entry = \<lparr> id_e = ''m2'', type_e = ''fact'', content = ''x'',
     tags = [''a,b''], createdAt = t1, updatedAt = t1, source = ''agent'' \<rparr>"

definition rule_entry :: MemoryEntry where
  "rule_entry = \<lparr> id_e = ''m3'', type_e = ''fact'', content = ''x'' @ [NL] @ ''---'' @ [NL] @ ''y'',
     tags = [''a''], createdAt = t1, updatedAt = t1, source = ''agent'' \<rparr>"

subsection \<open>Substrings without case\<close>

text \<open>What C6 calls a case-insensitive substring: \<open>q\<close> occurs in \<open>s\<close> up to the case of
  ASCII letters.\<close>

definition ci_prefix :: "string \<Rightarrow> string \<Rightarrow> bool" where
  "ci_prefix q s = (length q \<le> length s \<and> map lower_ascii (take (length q) s) = map lower_ascii q)"

fun ci_contains :: "string \<Rightarrow> string \<Rightarrow> bool" where
  "ci_contains q [] = (q = [])"
| "ci_contains q (c # cs) = (ci_prefix q (c # cs) \<or> ci_contains q cs)"

definition quote_row :: FtsRow where
  "quote_row = \<lparr> r_id = ''q1'', r_type = ''fact'', r_content = [CHR 0x22] @ ''abc'', r_tags = ''t'',
     r_source = ''agent'', r_created_at = t1, r_updated_at = t1 \<rparr>"

definition quote_store :: Store where
  "quote_store = \<lparr> memory_md = None, daily_dir = [], memory_fts = [quote_row], shortTerm = [] \<rparr>"

text \<open>A row whose content ends with \<open>"a\<close>, and one with a NUL before \<open>"abc\<close>.\<close>

definition tail_row :: FtsRow where
  "tail_row = \<lparr> r_id = ''q2'', r_type = ''fact'', r_content = ''x'' @ [CHR 0x22] @ ''a'', r_tags = ''t'',
     r_source = ''agent'', r_created_at = t1, r_updated_at = t1 \<rparr>"

definition nul_row :: FtsRow where
  "nul_row = \<lparr> r_id = ''q3'', r_type = ''fact'', r_content = ''a'' @ [CHR 0x00, CHR 0x22] @ ''abc'',
     r_tags = ''t'', r_source = ''agent'', r_created_at = t1, r_updated_at = t1 \<rparr>"

text \<open>An engine that rejects the query.\<close>

definition fts5_rejects :: "string \<Rightarrow> number \<Rightarrow> FtsRow list \<Rightarrow> FtsHit list option" where
  "fts5_rejects query limit rows = None"

definition log_options :: SaveOptions where
  "log_options = \<lparr> opt_id = None, opt_type = Some ''log'', opt_tags = Some [''note''], opt_source = None \<rparr>"

subsection \<open>Well-formed calls and the stores they reach\<close>

text \<open>The arguments of a \<open>save\<close> that the text form carries: tight one-line clock
  reading, id, type and source, a non-empty list of tags, and a text that is not blank
  and has no separator line once trimmed.\<close>

definition save_ok :: "string \<Rightarrow> string \<Rightarrow> string \<Rightarrow> SaveOptions \<Rightarrow> bool" where
  "save_ok now uid text options =
     (field_ok now
      \<and> field_ok (nullish (opt_id options) uid)
      \<and> field_ok (nullish (opt_type options) ''fact'')
      \<and> (case opt_tags options of None \<Rightarrow> False | Some ts \<Rightarrow> ts \<noteq> [] \<and> list_all tag_ok ts)
      \<and> field_ok (nullish (opt_source options) ''agent'')
      \<and> trim text \<noteq> []
      \<and> no_separator True (trim text))"

fun op_ok :: "Store \<Rightarrow> op \<Rightarrow> bool" where
  "op_ok st (Save now uid text options) = save_ok now uid text options"
| "op_ok st (Forget now i) = field_ok now"
| "op_ok st (Flush now uid agentSummary) =
     save_ok now uid (session_summary agentSummary (shortTerm st)) (flush_options now)"
| "op_ok st (Add msg) = True"

fun ops_ok :: "nat \<Rightarrow> nat \<Rightarrow> op list \<Rightarrow> Store \<Rightarrow> bool" where
  "ops_ok MST M [] st = True"
| "ops_ok MST M (c # cs) st = (op_ok st c \<and> ops_ok MST M cs (exec MST M c st))"

text \<open>No call brings an id that would repeat: a log entry (also the one of
  \<open>flushSession\<close>) gets an id that the store does not hold, and a long-term entry does
  not get the id of a log entry.\<close>

definition save_fresh :: "string \<Rightarrow> string \<Rightarrow> SaveOptions \<Rightarrow> Store \<Rightarrow> bool" where
  "save_fresh now uid options st =
     (if nullish (opt_type options) ''fact'' = ''log''
      then nullish (opt_id options) uid \<notin> set (map id_e (readAllEntries now st))
      else nullish (opt_id options) uid \<notin> set (map id_e (readDaily now st)))"

fun op_fresh :: "Store \<Rightarrow> op \<Rightarrow> bool" where
  "op_fresh st (Save now uid text options) = save_fresh now uid options st"
| "op_fresh st (Flush now uid agentSummary) = save_fresh now uid (flush_options now) st"
| "op_fresh st c = True"

fun ops_fresh :: "nat \<Rightarrow> nat \<Rightarrow> op list \<Rightarrow> Store \<Rightarrow> bool" where
  "ops_fresh MST M [] st = True"
| "ops_fresh MST M (c # cs) st = (op_fresh st c \<and> ops_fresh MST M cs (exec MST M c st))"

text \<open>A store as a list of long-term entries and the entries of each day: the
  long-term file parses to \<open>L\<close> whatever the clock says, and the daily file of day \<open>d\<close>
  is the text of its entries.\<close>

definition store_rep :: "Store \<Rightarrow> MemoryEntry list \<Rightarrow> (string \<times> MemoryEntry list) list \<Rightarrow> bool" where
  "store_rep st L D =
     ((\<exists>raw. memory_md st = Some raw \<and> (\<forall>t. parseMemoryMd t raw = L))
      \<and> list_all wf_entry L \<and> distinct (map id_e L)
      \<and> daily_dir st = map (\<lambda>d. (fst d @ ''.md'', log_text (snd d))) D
      \<and> distinct (map fst D)
      \<and> list_all (\<lambda>d. list_all wf_entry (snd d)) D)"

definition add_log :: "string \<Rightarrow> MemoryEntry \<Rightarrow> (string \<times> MemoryEntry list) list
    \<Rightarrow> (string \<times> MemoryEntry list) list" where
  "add_log d e D =
     (if map_of D d = None then D @ [(d, [e])]
      else map (\<lambda>x. if fst x = d then (fst x, snd x @ [e]) else x) D)"

text \<open>The entries that the \<open>save\<close> calls of a history return.\<close>

fun saved :: "nat \<Rightarrow> nat \<Rightarrow> op list \<Rightarrow> Store \<Rightarrow> MemoryEntry list" where
  "saved MST M [] st = []"
| "saved MST M (Save now uid text options # cs) st =
     save_entry now uid text options st # saved MST M cs (exec MST M (Save now uid text options) st)"
| "saved MST M (c # cs) st = saved MST M cs (exec MST M c st)"

text \<open>A \<open>save\<close> of a kind other than \<open>log\<close>, and the id it saves under.\<close>

fun fact_save :: "op \<Rightarrow> bool" where
  "fact_save (Save now uid text options) = (nullish (opt_type options) ''fact'' \<noteq> ''log'')"
| "fact_save c = False"

fun op_id :: "op \<Rightarrow> string" where
  "op_id (Save now uid text options) = nullish (opt_id options) uid"
| "op_id c = []"

text \<open>The first step of \<open>upsertLongTerm\<close>: replace the entry with the id, or push.\<close>

definition put_entry :: "MemoryEntry \<Rightarrow> MemoryEntry list \<Rightarrow> MemoryEntry list" where
  "put_entry e L = (case findIndex (\<lambda>x. id_e x = id_e e) L of Some idx \<Rightarrow> L[idx := e] | None \<Rightarrow> L @ [e])"

text \<open>The entry that \<open>flushSession\<close> is to add.\<close>

definition flush_entry :: "string \<Rightarrow> string \<Rightarrow> string option \<Rightarrow> Store \<Rightarrow> MemoryEntry" where
  "flush_entry now uid agentSummary st = \<lparr> id_e = uid, type_e = ''log'',
     content = trim (session_summary agentSummary (shortTerm st)),
     tags = [''session-summary'', today now], createdAt = now, updatedAt = now, source = ''system'' \<rparr>"

text \<open>All ids of a represented store are pairwise distinct.\<close>

definition ids_distinct :: "MemoryEntry list \<Rightarrow> (string \<times> MemoryEntry list) list \<Rightarrow> bool" where
  "ids_distinct L D = distinct (map id_e (L @ concat (map snd D)))"

text \<open>\<open>L\<close> holds the newest of the saved entries \<open>S\<close>, up to \<open>M\<close> of them: sorted by
  \<open>updatedAt\<close>, and no entry of \<open>S\<close> outside \<open>L\<close> is newer than one inside.\<close>

definition keeps :: "MemoryEntry list \<Rightarrow> MemoryEntry list \<Rightarrow> nat \<Rightarrow> bool" where
  "keeps L S M = (length L = min (length S) M \<and> sorted (map updatedAt L) \<and> set L \<subseteq> set S
     \<and> (\<forall>e\<in>set L. \<forall>d\<in>set S. d \<notin> set L \<longrightarrow> updatedAt d \<le> updatedAt e))"

definition t4 :: string where "t4 = ''2026-03-03T07:30:00.000Z''"

definition fact_a :: SaveOptions where
  "fact_a = \<lparr> opt_id = Some ''a'', opt_type = Some ''fact'', opt_tags = Some [''t''], opt_source = None \<rparr>"

definition fact_b :: SaveOptions where
  "fact_b = \<lparr> opt_id = Some ''b'', opt_type = Some ''fact'', opt_tags = Some [''t''], opt_source = None \<rparr>"

text \<open>\<open>save(content, {id: "a"})\<close>: every other option at its default.\<close>

definition plain_a :: SaveOptions where
  "plain_a = \<lparr> opt_id = Some ''a'', opt_type = None, opt_tags = None, opt_source = None \<rparr>"

definition log_a :: SaveOptions where
  "log_a = \<lparr> opt_id = Some ''a'', opt_type = Some ''log'', opt_tags = Some [''note''], opt_source = None \<rparr>"

text \<open>A content that holds a separator line and the text of a block after it.\<close>

definition spoof_text :: string where
  "spoof_text = ''x'' @ [NL] @ ''---'' @ [NL] @ ''id: c'' @ [NL] @ ''tags: t'' @ [NL] @ ''  ---'' @ [NL] @ ''foo''"

definition hist_facts :: "op list" where
  "hist_facts = [Save t2 ''u1'' ''Dentist on Tuesday'' fact_a, Save t3 ''u2'' ''Buy milk'' fact_b]"

definition hist_logs :: "op list" where
  "hist_logs = [Save t2 ''u1'' ''first'' log_a, Save t3 ''u2'' ''second'' log_a]"

definition hist_plain :: "op list" where
  "hist_plain = [Save t2 ''u1'' ''hello'' plain_a]"

definition hist_spoof :: "op list" where
  "hist_spoof = [Save t2 ''u1'' spoof_text fact_a]"

definition hist_blank :: "op list" where
  "hist_blank = [Save t2 ''u1'' [] fact_a, Save t3 ''u2'' [] fact_b]"

text \<open>Saves whose id does not come back as it was given: an id with a space in front, a
  tag with a line break before \<open>id: b\<close>, and a content with a separator line before
  \<open>id: c\<close>.\<close>

definition fact_space :: SaveOptions where
  "fact_space = \<lparr> opt_id = Some '' a'', opt_type = Some ''fact'', opt_tags = Some [''t''], opt_source = None \<rparr>"

definition fact_tag_line :: SaveOptions where
  "fact_tag_line = \<lparr> opt_id = Some ''a'', opt_type = Some ''fact'',
     opt_tags = Some [''x'' @ [NL] @ ''id: b''], opt_source = None \<rparr>"

definition fact_c :: SaveOptions where
  "fact_c = \<lparr> opt_id = Some ''c'', opt_type = Some ''fact'', opt_tags = Some [''t''], opt_source = None \<rparr>"

definition hist_space :: "op list" where
  "hist_space = [Save t2 ''u1'' ''Dentist on Tuesday'' fact_a, Save t3 ''u2'' ''Buy milk'' fact_space]"

definition hist_tag_line :: "op list" where
  "hist_tag_line = [Save t2 ''u1'' ''Dentist on Tuesday'' fact_b, Save t3 ''u2'' ''Buy milk'' fact_tag_line]"

definition hist_spoof_twice :: "op list" where
  "hist_spoof_twice = [Save t2 ''u1'' ''Pay rent'' fact_c, Save t3 ''u2'' spoof_text fact_a]"

subsection \<open>Entries that keep their id\<close>

text \<open>
  An entry need not come back from the text form as it was written for its id to come
  back. A plain entry has an id, a type, timestamps and a source that are tight
  one-line strings, tags without line terminators (there may be none), and a content
  that is empty or tight and holds no separator line. \<open>reparse\<close> is what the parser
  makes of the block of an entry.
\<close>

definition plain_entry :: "MemoryEntry \<Rightarrow> bool" where
  "plain_entry e = (field_ok (id_e e) \<and> field_ok (type_e e)
     \<and> list_all (\<lambda>t. filter is_lt t = []) (tags e)
     \<and> field_ok (createdAt e) \<and> field_ok (updatedAt e) \<and> field_ok (source e)
     \<and> (content e = [] \<or> tight (content e)) \<and> no_separator True (content e))"

definition reparse :: "string \<Rightarrow> MemoryEntry \<Rightarrow> MemoryEntry option" where
  "reparse t e = parse_block t (trim (block_text e))"

text \<open>The tags the parser reads from the value of a tags line, and the content it
  reads from the block of an entry without tags: the line \<open>tags: \<close> and all after it.\<close>

definition split_tags :: "string \<Rightarrow> string list" where
  "split_tags v = (if trim v = [] then [] else map trim (split_on '','' (trim v)))"

definition kept_text :: "MemoryEntry \<Rightarrow> string" where
  "kept_text e = ''tags: '' @ NL # (''createdAt: '' @ createdAt e) @ NL # (''updatedAt: '' @ updatedAt e)
     @ NL # (''source: '' @ source e) @ (if content e = [] then [] else NL # NL # content e)"

text \<open>The arguments of a \<open>save\<close> that make such an entry: the tags are optional and the
  text may be blank.\<close>

definition save_plain :: "string \<Rightarrow> string \<Rightarrow> string \<Rightarrow> SaveOptions \<Rightarrow> bool" where
  "save_plain now uid text options =
     (field_ok now
      \<and> field_ok (nullish (opt_id options) uid)
      \<and> field_ok (nullish (opt_type options) ''fact'')
      \<and> (case opt_tags options of None \<Rightarrow> True | Some ts \<Rightarrow> list_all (\<lambda>t. filter is_lt t = []) ts)
      \<and> field_ok (nullish (opt_source options) ''agent'')
      \<and> no_separator True (trim text))"

fun op_plain :: "Store \<Rightarrow> op \<Rightarrow> bool" where
  "op_plain st (Save now uid text options) = save_plain now uid text options"
| "op_plain st (Forget now i) = field_ok now"
| "op_plain st (Flush now uid agentSummary) =
     save_plain now uid (session_summary agentSummary (shortTerm st)) (flush_options now)"
| "op_plain st (Add msg) = True"

fun ops_plain :: "nat \<Rightarrow> nat \<Rightarrow> op list \<Rightarrow> Store \<Rightarrow> bool" where
  "ops_plain MST M [] st = True"
| "ops_plain MST M (c # cs) st = (op_plain st c \<and> ops_plain MST M cs (exec MST M c st))"

text \<open>A file to which a block can be appended: it is empty or ends with a line
  terminator, and nothing but whitespace follows its last separator line.\<close>

definition closed_text :: "string \<Rightarrow> bool" where
  "closed_text raw = ((raw = [] \<or> is_lt (last raw)) \<and> trim (last (split_sep True raw)) = [])"

text \<open>The stores that calls with such arguments reach: \<open>MEMORY.md\<close> exists, every entry
  read is plain, the ids of the long-term partition are distinct, and every daily log
  is a closed text under a name of its own.\<close>

definition plain_store :: "Store \<Rightarrow> bool" where
  "plain_store st =
     (memory_md st \<noteq> None
      \<and> (\<forall>t. field_ok t \<longrightarrow> list_all plain_entry (readAllEntries t st))
      \<and> (\<forall>t. distinct (map id_e (readLongTerm t st)))
      \<and> distinct (map fst (daily_dir st))
      \<and> list_all (\<lambda>f. closed_text (snd f)) (daily_dir st))"

text \<open>A history with default options, a log entry, an id saved twice, the end of a
  session and a \<open>forget\<close>.\<close>

definition hist_mixed :: "op list" where
  "hist_mixed =
     [Save t2 ''u1'' ''hello'' plain_a,
      Save t2 ''u2'' ''first'' log_options,
      Save t3 ''u3'' ''hello again'' plain_a,
      Save t3 ''u4'' ''Buy milk'' fact_b,
      Flush t3 ''u5'' None,
      Forget t4 ''b'']"

text \<open>The pieces of a text \<open>a @ b\<close> from the pieces \<open>P\<close> of \<open>a\<close> and \<open>Q\<close> of \<open>b\<close>, when no
  separator lies across the seam: the last piece of \<open>a\<close> runs on into the first of \<open>b\<close>.\<close>

definition glue :: "string list \<Rightarrow> string list \<Rightarrow> string list" where
  "glue P Q = butlast P @ (last P @ hd Q) # tl Q"

section \<open>The text form gives the entries back\<close>

lemma is_lt_ws: "is_lt c \<Longrightarrow> is_ws c"
  by (auto simp: is_lt_def is_ws_def)

lemma is_ws_NL [simp]: "is_ws NL"
  by (simp add: is_ws_def NL_def)

lemma is_lt_NL [simp]: "is_lt NL"
  by (simp add: is_lt_def NL_def)

lemma trim_rtrim: "trim s = rtrim (dropWhile is_ws s)"
  by (simp add: trim_def rtrim_def)

lemma rtrim_snoc_ws: "is_ws c \<Longrightarrow> rtrim (s @ [c]) = rtrim s"
  by (simp add: rtrim_def)

lemma rtrim_append_ws: "list_all is_ws w \<Longrightarrow> rtrim (s @ w) = rtrim s"
proof (induction w rule: rev_induct)
  case Nil
  then show ?case by simp
next
  case (snoc c w)
  then have "rtrim ((s @ w) @ [c]) = rtrim (s @ w)"
    by (intro rtrim_snoc_ws) simp
  with snoc show ?case by simp
qed

lemma rtrim_tight: "s \<noteq> [] \<Longrightarrow> \<not> is_ws (last s) \<Longrightarrow> rtrim s = s"
  by (cases s rule: rev_cases) (simp_all add: rtrim_def)

lemma rtrim_append_keep: "rtrim t \<noteq> [] \<Longrightarrow> rtrim (s @ t) = s @ rtrim t"
proof (induction t rule: rev_induct)
  case Nil
  then show ?case by (simp add: rtrim_def)
next
  case (snoc c t)
  show ?case
  proof (cases "is_ws c")
    case True
    then have "rtrim (s @ t @ [c]) = rtrim (s @ t)" "rtrim (t @ [c]) = rtrim t"
      using rtrim_snoc_ws[of c "s @ t"] rtrim_snoc_ws[of c t] by simp_all
    with snoc show ?thesis by simp
  next
    case False
    then show ?thesis by (simp add: rtrim_def)
  qed
qed

lemma trim_tight: "tight s \<Longrightarrow> trim s = s"
  by (cases s) (simp_all add: tight_def trim_rtrim rtrim_tight)

lemma trim_cons_ws: "is_ws c \<Longrightarrow> trim (c # s) = trim s"
  by (simp add: trim_def)

lemma trim_append_ws_left: "list_all is_ws w \<Longrightarrow> trim (w @ s) = trim s"
  by (induction w) (simp_all add: trim_cons_ws)

lemma dropWhile_ws_nonempty: "dropWhile is_ws s \<noteq> [] \<Longrightarrow> rtrim (dropWhile is_ws s) \<noteq> []"
proof -
  assume a: "dropWhile is_ws s \<noteq> []"
  then obtain c cs where cs: "dropWhile is_ws s = c # cs" by (cases "dropWhile is_ws s") auto
  then have nc: "\<not> is_ws c" using hd_dropWhile[of is_ws s] a by auto
  have "rev (c # cs) = rev cs @ [c]" by simp
  then have "dropWhile is_ws (rev (c # cs)) \<noteq> []"
    using nc by (simp add: dropWhile_append)
  then show ?thesis by (simp add: rtrim_def cs)
qed

lemma trim_append_ws_right: "list_all is_ws w \<Longrightarrow> trim (s @ w) = trim s"
proof (cases "dropWhile is_ws s = []")
  case True
  assume w: "list_all is_ws w"
  from True have "list_all is_ws s" by (simp add: list_all_iff)
  with w have "list_all is_ws (s @ w)" by simp
  then have d2: "dropWhile is_ws (s @ w) = []" by (simp add: list_all_iff del: list_all_append)
  show ?thesis by (simp only: trim_def True d2)
next
  case False
  assume w: "list_all is_ws w"
  from False obtain x where "x \<in> set s" "\<not> is_ws x" by (auto simp: dropWhile_eq_Nil_conv)
  then have "dropWhile is_ws (s @ w) = dropWhile is_ws s @ w"
    by (simp add: dropWhile_append1)
  then show ?thesis using w by (simp add: trim_rtrim rtrim_append_ws)
qed

lemma trim_nonempty_iff: "trim s \<noteq> [] \<longleftrightarrow> dropWhile is_ws s \<noteq> []"
proof
  assume t: "trim s \<noteq> []"
  show "dropWhile is_ws s \<noteq> []"
  proof
    assume e: "dropWhile is_ws s = []"
    have "trim s = []" by (simp only: trim_def e rev.simps dropWhile.simps)
    with t show False by simp
  qed
next
  assume "dropWhile is_ws s \<noteq> []"
  then show "trim s \<noteq> []" using dropWhile_ws_nonempty[of s] by (simp add: trim_rtrim)
qed

lemma trim_tight_result: "trim s \<noteq> [] \<Longrightarrow> tight (trim s)"
proof -
  assume a: "trim s \<noteq> []"
  let ?d = "dropWhile is_ws s"
  from a have d: "?d \<noteq> []" by (simp add: trim_nonempty_iff)
  have hd_d: "\<not> is_ws (hd ?d)" using d hd_dropWhile[of is_ws s] by simp
  let ?r = "dropWhile is_ws (rev ?d)"
  have r: "?r \<noteq> []" using a by (simp add: trim_def)
  have hd_r: "\<not> is_ws (hd ?r)" using r hd_dropWhile[of is_ws "rev ?d"] by simp
  have "last (trim s) = hd ?r" using r by (simp add: trim_def last_rev)
  moreover have "hd (trim s) = hd ?d"
  proof -
    obtain c cs where cs: "?d = c # cs" using d by (cases ?d) auto
    then have nc: "\<not> is_ws c" using hd_d by simp
    have "rtrim (c # cs) = [c] @ rtrim cs \<or> rtrim (c # cs) = [c]"
    proof (cases "rtrim cs = []")
      case True
      then have "list_all is_ws cs" by (simp add: rtrim_def list_all_iff)
      then have "rtrim ([c] @ cs) = rtrim [c]" by (rule rtrim_append_ws)
      then show ?thesis using nc by (simp add: rtrim_def)
    next
      case False
      then have "rtrim ([c] @ cs) = [c] @ rtrim cs" by (rule rtrim_append_keep)
      then show ?thesis by simp
    qed
    then show ?thesis using cs by (auto simp: trim_rtrim)
  qed
  ultimately show ?thesis using a hd_d hd_r by (simp add: tight_def)
qed

lemma cons_first_nonempty [simp]: "cons_first c xs \<noteq> []"
  by (cases xs) simp_all

lemma split_on_nonempty [simp]: "split_on sep s \<noteq> []"
  by (cases s) simp_all

lemma split_sep_nonempty [simp]: "split_sep bol s \<noteq> []"
  by (cases s) simp_all

lemma join_cons_first: "xs \<noteq> [] \<Longrightarrow> join sep (cons_first c xs) = c # join sep xs"
proof (cases xs)
  case Nil
  assume "xs \<noteq> []"
  with Nil show ?thesis by simp
next
  case (Cons p ps)
  then show ?thesis by (cases ps) simp_all
qed

lemma join_nil_cons: "xs \<noteq> [] \<Longrightarrow> join sep ([] # xs) = sep @ join sep xs"
  by (cases xs) simp_all

lemma join_cons: "xs \<noteq> [] \<Longrightarrow> join sep (x # xs) = x @ sep @ join sep xs"
  by (cases xs) simp_all

lemma join_split_on: "sep \<noteq> [] \<Longrightarrow> join sep (split_on sep s) = s"
proof (induction sep s rule: split_on.induct)
  case (1 sep)
  then show ?case by simp
next
  case (2 sep c cs)
  show ?case
  proof (cases "take (length sep) (c # cs) = sep")
    case True
    with 2 have "join sep (split_on sep (drop (length sep) (c # cs))) = drop (length sep) (c # cs)"
      by simp
    then have "join sep (split_on sep (c # cs)) = sep @ drop (length sep) (c # cs)"
      using True 2(3) by (simp add: join_nil_cons)
    also have "\<dots> = take (length sep) (c # cs) @ drop (length sep) (c # cs)"
      using True by simp
    finally show ?thesis by (simp only: append_take_drop_id)
  next
    case False
    with 2 have "join sep (split_on sep cs) = cs" by simp
    then show ?thesis using False by (simp add: join_cons_first)
  qed
qed

lemma split_on_no_sep: "sep \<noteq> [] \<Longrightarrow> hd sep \<notin> set a \<Longrightarrow> split_on sep a = [a]"
proof (induction a)
  case Nil
  then show ?case by simp
next
  case (Cons c cs)
  have "take (length sep) (c # cs) \<noteq> sep"
  proof
    assume "take (length sep) (c # cs) = sep"
    then have "hd sep = c" using Cons.prems(1) by (cases sep) auto
    with Cons.prems(2) show False by simp
  qed
  with Cons show ?case by simp
qed

lemma split_on_append: "sep \<noteq> [] \<Longrightarrow> hd sep \<notin> set a \<Longrightarrow> split_on sep (a @ sep @ b) = a # split_on sep b"
proof (induction a)
  case Nil
  then obtain x xs where sep: "sep = x # xs" by (cases sep) auto
  then show ?case by simp
next
  case (Cons c cs)
  have "take (length sep) (c # cs @ sep @ b) \<noteq> sep"
  proof
    assume "take (length sep) (c # cs @ sep @ b) = sep"
    then have "hd sep = c" using Cons.prems(1) by (cases sep) auto
    with Cons.prems(2) show False by simp
  qed
  with Cons show ?case by simp
qed

lemma split_on_NL_append: "NL \<notin> set a \<Longrightarrow> split_on [NL] (a @ NL # b) = a # split_on [NL] b"
  using split_on_append[of "[NL]" a b] by simp

lemma split_on_NL_single: "NL \<notin> set a \<Longrightarrow> split_on [NL] a = [a]"
  using split_on_no_sep[of "[NL]" a] by simp

lemma lt_not_dash: "is_lt l \<Longrightarrow> l \<noteq> CHR ''-''"
  by (auto simp: is_lt_def)

lemma sep_here_lt_cons [simp]: "is_lt l \<Longrightarrow> \<not> sep_here (l # t)"
  by (auto simp: sep_here_def is_lt_def)

lemma sep_here_append_lt: "s \<noteq> [] \<Longrightarrow> is_lt l \<Longrightarrow> sep_here (s @ l # t) = sep_here s"
proof -
  assume s: "s \<noteq> []" and l: "is_lt l"
  from l have ld: "l \<noteq> CHR ''-''" by (rule lt_not_dash)
  consider c1 where "s = [c1]" | c1 c2 where "s = [c1, c2]" | c1 c2 c3 where "s = [c1, c2, c3]"
    | c1 c2 c3 c4 r where "s = c1 # c2 # c3 # c4 # r"
    using s by (metis list.exhaust)
  then show ?thesis
  proof cases
    case 1 then show ?thesis using ld by (auto simp: sep_here_def)
  next
    case 2 then show ?thesis using ld by (auto simp: sep_here_def)
  next
    case 3 then show ?thesis using l by (auto simp: sep_here_def)
  next
    case 4 then show ?thesis by (auto simp: sep_here_def)
  qed
qed

lemma sep_here_dashes: "rest = [] \<or> is_lt (hd rest) \<Longrightarrow> sep_here (CHR ''-'' # CHR ''-'' # CHR ''-'' # rest)"
  by (cases rest) (auto simp: sep_here_def)

lemma split_sep_block:
  "no_separator bol b \<Longrightarrow> is_lt l \<Longrightarrow> rest = [] \<or> is_lt (hd rest)
   \<Longrightarrow> split_sep bol (b @ l # ''---'' @ rest) = (b @ [l]) # split_sep False rest"
proof (induction b arbitrary: bol)
  case Nil
  then show ?case using sep_here_dashes[of rest] by simp
next
  case (Cons c cs)
  have "sep_here ((c # cs) @ l # ''---'' @ rest) = sep_here (c # cs)"
    using Cons.prems(2) by (intro sep_here_append_lt) simp_all
  with Cons.prems(1) have "\<not> (bol \<and> sep_here (c # cs @ l # ''---'' @ rest))"
    by simp
  moreover have "split_sep (is_lt c) (cs @ l # ''---'' @ rest) = (cs @ [l]) # split_sep False rest"
    using Cons by simp
  ultimately show ?case by simp
qed

lemma no_separator_append:
  "no_separator bol a \<Longrightarrow> is_lt l \<Longrightarrow> no_separator True b \<Longrightarrow> no_separator bol (a @ l # b)"
proof (induction a arbitrary: bol)
  case Nil
  then show ?case by simp
next
  case (Cons c cs)
  have "sep_here ((c # cs) @ l # b) = sep_here (c # cs)"
    using Cons.prems(2) by (intro sep_here_append_lt) simp_all
  with Cons.prems(1) have "\<not> (bol \<and> sep_here (c # cs @ l # b))"
    by simp
  with Cons show ?case by simp
qed

lemma no_separator_snoc: "no_separator bol a \<Longrightarrow> is_lt l \<Longrightarrow> no_separator bol (a @ [l])"
  using no_separator_append[of bol a l "[]"] by simp

lemma no_separator_False_lt_free: "filter is_lt s = [] \<Longrightarrow> no_separator False s"
  by (induction s) (auto split: if_splits)

lemma no_separator_lt_free: "filter is_lt s = [] \<Longrightarrow> \<not> sep_here s \<Longrightarrow> no_separator bol s"
  by (cases s) (auto simp: no_separator_False_lt_free split: if_splits)

lemma no_separator_line:
  "filter is_lt s = [] \<Longrightarrow> \<not> sep_here s \<Longrightarrow> no_separator True b \<Longrightarrow> no_separator bol (s @ NL # b)"
  by (simp add: no_separator_append no_separator_lt_free)

lemma map_trim_cons_first: "is_ws c \<Longrightarrow> xs \<noteq> [] \<Longrightarrow> map trim (cons_first c xs) = map trim xs"
  by (cases xs) (simp_all add: trim_cons_ws)

lemma blocks_of_Nil [simp]: "blocks_of [] = []"
  by (simp add: blocks_of_def trim_def)

lemma blocks_of_NL [simp]: "blocks_of (NL # r) = blocks_of r"
proof -
  have "split_sep True (NL # r) = cons_first NL (split_sep True r)" by simp
  then show ?thesis by (simp add: blocks_of_def map_trim_cons_first del: split_sep.simps)
qed

lemma blocks_of_block:
  assumes "no_separator True b"
  shows "blocks_of (b @ NL # CHR ''-'' # CHR ''-'' # CHR ''-'' # NL # r)
    = (if trim b = [] then [] else [trim b]) @ blocks_of r"
proof -
  have "split_sep True (b @ NL # ''---'' @ NL # r) = (b @ [NL]) # split_sep False (NL # r)"
    using split_sep_block[OF assms, of NL "NL # r"] by simp
  moreover have "split_sep False (NL # r) = cons_first NL (split_sep True r)" by simp
  moreover have "trim (b @ [NL]) = trim b" by (rule trim_append_ws_right) simp
  ultimately show ?thesis
    by (simp add: blocks_of_def map_trim_cons_first del: split_sep.simps)
qed

lemma blocks_of_last:
  assumes "no_separator True b"
  shows "blocks_of (b @ [NL, CHR ''-'', CHR ''-'', CHR ''-'']) = (if trim b = [] then [] else [trim b])"
proof -
  have "split_sep True (b @ NL # ''---'' @ []) = (b @ [NL]) # split_sep False []"
    using split_sep_block[OF assms, of NL "[]"] by simp
  moreover have "trim (b @ [NL]) = trim b" by (rule trim_append_ws_right) simp
  moreover have "trim [] = []" by (simp add: trim_def)
  ultimately show ?thesis
    by (simp add: blocks_of_def del: split_sep.simps(2))
qed

lemma serializeEntry_block: "serializeEntry e = block_text e @ NL # ''---''"
  by (simp add: serializeEntry_def block_text_def meta_text_def)

lemma rtrim_decomp: "\<exists>w. list_all is_ws w \<and> s = rtrim s @ w"
proof -
  have "rev (takeWhile is_ws (rev s) @ dropWhile is_ws (rev s)) = rev (rev s)"
    by (simp only: takeWhile_dropWhile_id)
  then have "rev (dropWhile is_ws (rev s)) @ rev (takeWhile is_ws (rev s)) = s"
    by (simp only: rev_append rev_rev_ident)
  then have "s = rtrim s @ rev (takeWhile is_ws (rev s))" by (simp only: rtrim_def)
  moreover have "list_all is_ws (rev (takeWhile is_ws (rev s)))"
    by (auto simp: list_all_iff dest: set_takeWhileD)
  ultimately show ?thesis by blast
qed

lemma trim_rtrim_idem: "trim (rtrim s) = trim s"
proof -
  obtain w where w: "list_all is_ws w" "s = rtrim s @ w" using rtrim_decomp by blast
  have "trim (rtrim s @ w) = trim (rtrim s)" using w(1) by (rule trim_append_ws_right)
  with w(2) show ?thesis by simp
qed

lemma trim_nonempty_set: "trim s \<noteq> [] \<longleftrightarrow> (\<exists>x\<in>set s. \<not> is_ws x)"
  by (simp add: trim_nonempty_iff)

lemma rtrim_nonempty: "trim s \<noteq> [] \<Longrightarrow> rtrim s \<noteq> []"
proof
  assume a: "trim s \<noteq> []" and b: "rtrim s = []"
  have "trim (rtrim s) = trim s" by (rule trim_rtrim_idem)
  with b have "trim s = trim []" by simp
  with a show False by (simp add: trim_def)
qed

lemma concat_cons_first: "concat (cons_first c xs) = c # concat xs"
  by (cases xs) simp_all

lemma concat_split_on_char: "concat (split_on [c] s) = filter (\<lambda>x. x \<noteq> c) s"
  by (induction s) (auto simp: concat_cons_first)

lemma field_ok_no_NL: "field_ok v \<Longrightarrow> NL \<notin> set v"
  by (auto simp: field_ok_def filter_empty_conv)

lemma field_ok_trim: "field_ok v \<Longrightarrow> trim v = v"
  by (simp add: field_ok_def trim_tight)

lemma field_ok_nonempty: "field_ok v \<Longrightarrow> v \<noteq> []"
  by (simp add: field_ok_def tight_def)

lemma key_char_not_ws: "is_key_char c \<Longrightarrow> \<not> is_ws c"
  by (auto simp: is_key_char_def is_ws_def)

lemma key_tight: "k \<noteq> [] \<Longrightarrow> list_all is_key_char k \<Longrightarrow> tight k"
  by (simp add: tight_def list_all_iff key_char_not_ws)

lemma scan_content: "scan_lines True ls m cl = (m, cl @ ls)"
  by (induction ls arbitrary: cl) simp_all

lemma scan_blank: "scan_lines False ([] # rest) m cl = (m, cl @ [] # rest)"
  by (simp add: scan_content html_comment_def startsWith_def meta_line_def)

lemma scan_meta:
  assumes k: "k \<noteq> []" "list_all is_key_char k" and v: "field_ok v"
  shows "scan_lines False ((k @ '': '' @ v) # rest) m cl = scan_lines False rest (m(k \<mapsto> v)) cl"
proof -
  let ?l = "k @ '': '' @ v"
  have nk: "\<not> is_key_char (CHR '':'')" by (simp add: is_key_char_def)
  have tw: "takeWhile is_key_char ?l = k"
    using k(2) nk by (simp add: takeWhile_append2 list_all_iff)
  have dw: "dropWhile is_key_char ?l = '': '' @ v"
    using k(2) nk by (simp add: dropWhile_append2 list_all_iff)
  have ml: "meta_line ?l"
    unfolding meta_line_def tw dw using k(1) v by (simp add: field_ok_def tight_def)
  have "hd ?l = hd k" using k(1) by simp
  moreover have "is_key_char (hd k)" using k by (cases k) simp_all
  ultimately have "hd ?l \<noteq> CHR ''<''" by (auto simp: is_key_char_def)
  moreover have "?l \<noteq> []" using k(1) by simp
  ultimately have nc: "\<not> html_comment ?l"
    by (cases ?l) (auto simp: html_comment_def startsWith_def)
  have "CHR '':'' \<notin> set k" using k(2) nk by (auto simp: list_all_iff)
  then have sp: "split_on '': '' ?l = k # split_on '': '' v"
    using split_on_append[of "'': ''" k v] by simp
  have j: "join '': '' (split_on '': '' v) = v" by (rule join_split_on) simp
  have "trim k = k" using k by (simp add: key_tight trim_tight)
  moreover have "trim v = v" using v by (rule field_ok_trim)
  ultimately show ?thesis using ml nc sp j by simp
qed

lemma scan_id: "field_ok v \<Longrightarrow>
  scan_lines False ((''id: '' @ v) # rest) m cl = scan_lines False rest (m(''id'' \<mapsto> v)) cl"
  using scan_meta[of "''id''" v rest m cl] by (simp add: is_key_char_def)

lemma scan_type: "field_ok v \<Longrightarrow>
  scan_lines False ((''type: '' @ v) # rest) m cl = scan_lines False rest (m(''type'' \<mapsto> v)) cl"
  using scan_meta[of "''type''" v rest m cl] by (simp add: is_key_char_def)

lemma scan_tags: "field_ok v \<Longrightarrow>
  scan_lines False ((''tags: '' @ v) # rest) m cl = scan_lines False rest (m(''tags'' \<mapsto> v)) cl"
  using scan_meta[of "''tags''" v rest m cl] by (simp add: is_key_char_def)

lemma scan_createdAt: "field_ok v \<Longrightarrow>
  scan_lines False ((''createdAt: '' @ v) # rest) m cl = scan_lines False rest (m(''createdAt'' \<mapsto> v)) cl"
  using scan_meta[of "''createdAt''" v rest m cl] by (simp add: is_key_char_def)

lemma scan_updatedAt: "field_ok v \<Longrightarrow>
  scan_lines False ((''updatedAt: '' @ v) # rest) m cl = scan_lines False rest (m(''updatedAt'' \<mapsto> v)) cl"
  using scan_meta[of "''updatedAt''" v rest m cl] by (simp add: is_key_char_def)

lemma scan_source: "field_ok v \<Longrightarrow>
  scan_lines False ((''source: '' @ v) # rest) m cl = scan_lines False rest (m(''source'' \<mapsto> v)) cl"
  using scan_meta[of "''source''" v rest m cl] by (simp add: is_key_char_def)

lemma field_ok_join2: "field_ok a \<Longrightarrow> field_ok b \<Longrightarrow> field_ok (a @ '', '' @ b)"
  by (auto simp: field_ok_def tight_def is_lt_def)

lemma tag_join_field_ok: "ts \<noteq> [] \<Longrightarrow> list_all tag_ok ts \<Longrightarrow> field_ok (join '', '' ts)"
proof (induction ts rule: induct_list012)
  case 1
  then show ?case by simp
next
  case (2 x)
  then show ?case by (simp add: tag_ok_def)
next
  case (3 x y ys)
  then have "field_ok x" "field_ok (join '', '' (y # ys))" by (simp_all add: tag_ok_def)
  then have "field_ok (x @ '', '' @ join '', '' (y # ys))" by (rule field_ok_join2)
  then show ?case by simp
qed

lemma tags_roundtrip:
  "ts \<noteq> [] \<Longrightarrow> list_all tag_ok ts \<Longrightarrow> map trim (split_on '','' (join '', '' ts)) = ts"
proof (induction ts rule: induct_list012)
  case 1
  then show ?case by simp
next
  case (2 x)
  then have "CHR '','' \<notin> set x" "trim x = x" by (simp_all add: tag_ok_def field_ok_trim)
  then show ?case using split_on_no_sep[of "'',''" x] by simp
next
  case (3 x y ys)
  let ?J = "join '', '' (y # ys)"
  from 3 have x: "CHR '','' \<notin> set x" "trim x = x" by (simp_all add: tag_ok_def field_ok_trim)
  from 3 have IH: "map trim (split_on '','' ?J) = y # ys" by simp
  have "split_on '','' (x @ '','' @ CHR '' '' # ?J) = x # split_on '','' (CHR '' '' # ?J)"
    using x(1) split_on_append[of "'',''" x "CHR '' '' # ?J"] by simp
  moreover have "split_on '','' (CHR '' '' # ?J) = cons_first (CHR '' '') (split_on '','' ?J)"
    by simp
  moreover have "map trim (cons_first (CHR '' '') (split_on '','' ?J)) = map trim (split_on '','' ?J)"
    by (rule map_trim_cons_first) (simp_all add: is_ws_def)
  ultimately have "map trim (split_on '','' (x @ '','' @ CHR '' '' # ?J)) = x # y # ys"
    using x(2) IH by simp
  then show ?case by simp
qed

lemma lines_of_block:
  assumes "meta_ok e"
  shows "split_on [NL] (meta_text e @ NL # NL # r) =
     block_lines e (split_on [NL] r)"
proof -
  have nl: "NL \<noteq> CHR ''i''" "NL \<noteq> CHR ''d''" "NL \<noteq> CHR '':''" "NL \<noteq> CHR '' ''"
    "NL \<noteq> CHR ''t''" "NL \<noteq> CHR ''y''" "NL \<noteq> CHR ''p''" "NL \<noteq> CHR ''e''" "NL \<noteq> CHR ''a''"
    "NL \<noteq> CHR ''g''" "NL \<noteq> CHR ''s''" "NL \<noteq> CHR ''c''" "NL \<noteq> CHR ''r''" "NL \<noteq> CHR ''A''"
    "NL \<noteq> CHR ''u''" "NL \<noteq> CHR ''o''"
    by (simp_all add: NL_def)
  have f: "NL \<notin> set (id_e e)" "NL \<notin> set (type_e e)" "NL \<notin> set (join '', '' (tags e))"
    "NL \<notin> set (createdAt e)" "NL \<notin> set (updatedAt e)" "NL \<notin> set (source e)"
    using assms by (simp_all add: meta_ok_def field_ok_no_NL tag_join_field_ok)
  have 1: "\<And>x. split_on [NL] ((''id: '' @ id_e e) @ NL # x) = (''id: '' @ id_e e) # split_on [NL] x"
    by (rule split_on_NL_append) (use f nl in simp)
  have 2: "\<And>x. split_on [NL] ((''type: '' @ type_e e) @ NL # x) = (''type: '' @ type_e e) # split_on [NL] x"
    by (rule split_on_NL_append) (use f nl in simp)
  have 3: "\<And>x. split_on [NL] ((''tags: '' @ join '', '' (tags e)) @ NL # x)
      = (''tags: '' @ join '', '' (tags e)) # split_on [NL] x"
    by (rule split_on_NL_append) (use f nl in simp)
  have 4: "\<And>x. split_on [NL] ((''createdAt: '' @ createdAt e) @ NL # x)
      = (''createdAt: '' @ createdAt e) # split_on [NL] x"
    by (rule split_on_NL_append) (use f nl in simp)
  have 5: "\<And>x. split_on [NL] ((''updatedAt: '' @ updatedAt e) @ NL # x)
      = (''updatedAt: '' @ updatedAt e) # split_on [NL] x"
    by (rule split_on_NL_append) (use f nl in simp)
  have 6: "\<And>x. split_on [NL] ((''source: '' @ source e) @ NL # x)
      = (''source: '' @ source e) # split_on [NL] x"
    by (rule split_on_NL_append) (use f nl in simp)
  have 7: "\<And>x. split_on [NL] (NL # x) = [] # split_on [NL] x"
    by simp
  have "meta_text e @ NL # NL # r =
      (''id: '' @ id_e e) @ NL # (''type: '' @ type_e e) @ NL # (''tags: '' @ join '', '' (tags e)) @ NL #
      (''createdAt: '' @ createdAt e) @ NL # (''updatedAt: '' @ updatedAt e) @ NL #
      (''source: '' @ source e) @ NL # NL # r"
    by (simp add: meta_text_def)
  then show ?thesis by (simp only: 1 2 3 4 5 6 7 block_lines_def)
qed

lemma scan_block:
  assumes "meta_ok e"
  shows "scan_lines False
     (block_lines e (ls)) Map.empty [] =
   (Map.empty(''id'' \<mapsto> id_e e, ''type'' \<mapsto> type_e e, ''tags'' \<mapsto> join '', '' (tags e),
      ''createdAt'' \<mapsto> createdAt e, ''updatedAt'' \<mapsto> updatedAt e, ''source'' \<mapsto> source e),
    [] # ls)"
proof -
  have f: "field_ok (id_e e)" "field_ok (type_e e)" "field_ok (join '', '' (tags e))"
    "field_ok (createdAt e)" "field_ok (updatedAt e)" "field_ok (source e)"
    using assms by (simp_all add: meta_ok_def tag_join_field_ok)
  show ?thesis
    by (simp only: block_lines_def scan_id[OF f(1)] scan_type[OF f(2)] scan_tags[OF f(3)]
        scan_createdAt[OF f(4)] scan_updatedAt[OF f(5)] scan_source[OF f(6)] scan_blank append_Nil)
qed

lemma trim_block_text:
  assumes "meta_ok e" "trim (content e) \<noteq> []"
  shows "trim (block_text e) = meta_text e @ NL # NL # rtrim (content e)"
proof -
  have "\<not> is_ws (CHR ''i'')" by (simp add: is_ws_def)
  then have "dropWhile is_ws (block_text e) = block_text e"
    by (simp add: block_text_def meta_text_def)
  then have "trim (block_text e) = rtrim (block_text e)" by (simp add: trim_rtrim)
  also have "\<dots> = rtrim ((meta_text e @ [NL, NL]) @ (content e @ [NL]))"
    by (simp add: block_text_def)
  also have "\<dots> = (meta_text e @ [NL, NL]) @ rtrim (content e @ [NL])"
  proof (rule rtrim_append_keep)
    have "rtrim (content e @ [NL]) = rtrim (content e)" by (rule rtrim_snoc_ws) simp
    with assms(2) show "rtrim (content e @ [NL]) \<noteq> []" by (simp add: rtrim_nonempty)
  qed
  also have "rtrim (content e @ [NL]) = rtrim (content e)" by (rule rtrim_snoc_ws) simp
  finally show ?thesis by simp
qed

lemma parse_block_entry:
  assumes m: "meta_ok e" and c: "trim (content e) \<noteq> []"
  shows "parse_block now (trim (block_text e)) = Some (e\<lparr>content := trim (content e)\<rparr>)"
proof -
  let ?r = "rtrim (content e)"
  have lines: "split_on [NL] (trim (block_text e)) =
     block_lines e (split_on [NL] ?r)"
    by (simp only: trim_block_text[OF m c] lines_of_block[OF m])
  have j: "join [NL] ([] # split_on [NL] ?r) = NL # ?r"
    by (simp add: join_nil_cons join_split_on)
  have tj: "trim (NL # ?r) = trim (content e)"
    by (simp add: trim_cons_ws trim_rtrim_idem)
  have "trim ?r \<noteq> []" using c by (simp add: trim_rtrim_idem)
  then obtain x where x: "x \<in> set ?r" "\<not> is_ws x" by (auto simp: trim_nonempty_set)
  then have "x \<noteq> NL" by auto
  with x have "x \<in> set (concat ([] # split_on [NL] ?r))" by (simp add: concat_split_on_char)
  with x(2) have cc: "trim (concat ([] # split_on [NL] ?r)) \<noteq> []"
    by (auto simp only: trim_nonempty_set)
  have idne: "id_e e \<noteq> []" "join '', '' (tags e) \<noteq> []"
    using m by (simp_all add: meta_ok_def field_ok_nonempty tag_join_field_ok)
  have tg: "map trim (split_on '','' (join '', '' (tags e))) = tags e"
    using m by (simp add: meta_ok_def tags_roundtrip)
  show ?thesis
    unfolding parse_block_def lines scan_block[OF m]
    using cc idne tg by (simp add: j tj nullish_def del: join.simps concat.simps)
qed

lemma field_ok_lt_free: "field_ok v \<Longrightarrow> filter is_lt v = []"
  by (simp add: field_ok_def)

lemma block_text_no_separator:
  assumes m: "meta_ok e" and c: "no_separator True (content e)"
  shows "no_separator True (block_text e)"
proof -
  have f: "filter is_lt (id_e e) = []" "filter is_lt (type_e e) = []"
    "filter is_lt (join '', '' (tags e)) = []"
    "filter is_lt (createdAt e) = []" "filter is_lt (updatedAt e) = []" "filter is_lt (source e) = []"
    using m by (simp_all add: meta_ok_def field_ok_lt_free tag_join_field_ok)
  have 7: "no_separator True (NL # content e @ [NL])"
    using c by (simp add: no_separator_snoc)
  have 6: "no_separator True ((''source: '' @ source e) @ NL # NL # content e @ [NL])"
    by (rule no_separator_line) (use f 7 in \<open>simp_all add: is_lt_def sep_here_def\<close>)
  have 5: "no_separator True ((''updatedAt: '' @ updatedAt e) @ NL
      # (''source: '' @ source e) @ NL # NL # content e @ [NL])"
    by (rule no_separator_line) (use f 6 in \<open>simp_all add: is_lt_def sep_here_def\<close>)
  have 4: "no_separator True ((''createdAt: '' @ createdAt e) @ NL # (''updatedAt: '' @ updatedAt e) @ NL
      # (''source: '' @ source e) @ NL # NL # content e @ [NL])"
    by (rule no_separator_line) (use f 5 in \<open>simp_all add: is_lt_def sep_here_def\<close>)
  have 3: "no_separator True ((''tags: '' @ join '', '' (tags e)) @ NL
      # (''createdAt: '' @ createdAt e) @ NL # (''updatedAt: '' @ updatedAt e) @ NL
      # (''source: '' @ source e) @ NL # NL # content e @ [NL])"
    by (rule no_separator_line) (use f 4 in \<open>simp_all add: is_lt_def sep_here_def\<close>)
  have 2: "no_separator True ((''type: '' @ type_e e) @ NL # (''tags: '' @ join '', '' (tags e)) @ NL
      # (''createdAt: '' @ createdAt e) @ NL # (''updatedAt: '' @ updatedAt e) @ NL
      # (''source: '' @ source e) @ NL # NL # content e @ [NL])"
    by (rule no_separator_line) (use f 3 in \<open>simp_all add: is_lt_def sep_here_def\<close>)
  have 1: "no_separator True ((''id: '' @ id_e e) @ NL
      # (''type: '' @ type_e e) @ NL # (''tags: '' @ join '', '' (tags e)) @ NL
      # (''createdAt: '' @ createdAt e) @ NL # (''updatedAt: '' @ updatedAt e) @ NL
      # (''source: '' @ source e) @ NL # NL # content e @ [NL])"
    by (rule no_separator_line) (use f 2 in \<open>simp_all add: is_lt_def sep_here_def\<close>)
  then show ?thesis by (simp add: block_text_def meta_text_def)
qed

lemma trim_block_text_nonempty: "trim (block_text e) \<noteq> []"
proof -
  have "CHR ''i'' \<in> set (block_text e)" by (simp add: block_text_def meta_text_def)
  moreover have "\<not> is_ws (CHR ''i'')" by (simp add: is_ws_def)
  ultimately show ?thesis unfolding trim_nonempty_set by blast
qed

lemma blocks_of_serializeEntry:
  "meta_ok e \<Longrightarrow> no_separator True (content e) \<Longrightarrow> blocks_of (serializeEntry e) = [trim (block_text e)]"
  by (simp add: serializeEntry_block blocks_of_last block_text_no_separator
      trim_block_text_nonempty)

lemma wf_entry_content: "wf_entry e \<Longrightarrow> trim (content e) = content e"
  by (simp add: wf_entry_def trim_tight)

lemma wf_entry_parse_block:
  assumes "wf_entry e"
  shows "parse_block now (trim (block_text e)) = Some e"
proof -
  have t: "trim (content e) = content e" using assms by (rule wf_entry_content)
  have "content e \<noteq> []" using assms by (simp add: wf_entry_def tight_def)
  with t have "trim (content e) \<noteq> []" by simp
  then have "parse_block now (trim (block_text e)) = Some (e\<lparr>content := trim (content e)\<rparr>)"
    using assms by (intro parse_block_entry) (simp_all add: wf_entry_def)
  with t show ?thesis by simp
qed

lemma wf_entry_no_separator: "wf_entry e \<Longrightarrow> no_separator True (block_text e)"
  by (simp add: wf_entry_def block_text_no_separator)

lemma blocks_of_join_entries:
  "list_all wf_entry es \<Longrightarrow> blocks_of (join [NL] (map serializeEntry es)) = map (\<lambda>e. trim (block_text e)) es"
proof (induction es rule: induct_list012)
  case 1
  then show ?case by simp
next
  case (2 e)
  then show ?case
    by (simp add: serializeEntry_block blocks_of_last wf_entry_no_separator trim_block_text_nonempty)
next
  case (3 e e' es)
  have "join [NL] (map serializeEntry (e # e' # es))
      = block_text e @ NL # ''---'' @ NL # join [NL] (map serializeEntry (e' # es))"
    by (simp add: serializeEntry_block)
  moreover have "no_separator True (block_text e)" using 3(3) by (simp add: wf_entry_no_separator)
  moreover have "blocks_of (join [NL] (map serializeEntry (e' # es))) = map (\<lambda>e. trim (block_text e)) (e' # es)"
    using 3 by simp
  ultimately show ?case
    by (simp add: blocks_of_block trim_block_text_nonempty del: join.simps)
qed

lemma blocks_of_log_text_append:
  "list_all wf_entry es \<Longrightarrow> blocks_of (log_text es @ r) = map (\<lambda>e. trim (block_text e)) es @ blocks_of r"
proof (induction es)
  case Nil
  then show ?case by (simp add: log_text_def)
next
  case (Cons e es)
  have "log_text (e # es) @ r = block_text e @ NL # ''---'' @ NL # (log_text es @ r)"
    by (simp add: log_text_def serializeEntry_block)
  moreover have "no_separator True (block_text e)" using Cons.prems by (simp add: wf_entry_no_separator)
  moreover have "blocks_of (log_text es @ r) = map (\<lambda>e. trim (block_text e)) es @ blocks_of r"
    using Cons by simp
  ultimately show ?case
    by (simp add: blocks_of_block trim_block_text_nonempty del: join.simps)
qed

lemma map_filter_parse_blocks:
  "list_all wf_entry es \<Longrightarrow> List.map_filter (parse_block now) (map (\<lambda>e. trim (block_text e)) es) = es"
  by (induction es) (simp_all add: List.map_filter_simps wf_entry_parse_block)

lemma map_filter_append: "List.map_filter f (xs @ ys) = List.map_filter f xs @ List.map_filter f ys"
  by (simp add: List.map_filter_def)

lemma parseMemoryMd_log_text_append:
  "list_all wf_entry es \<Longrightarrow> parseMemoryMd now (log_text es @ r) = es @ parseMemoryMd now r"
  by (simp add: parseMemoryMd_def blocks_of_log_text_append map_filter_append map_filter_parse_blocks)

lemma parseMemoryMd_log_text:
  "list_all wf_entry es \<Longrightarrow> parseMemoryMd now (log_text es) = es"
  using parseMemoryMd_log_text_append[of es now "[]"] by (simp add: parseMemoryMd_def List.map_filter_simps)

lemma header_split: "header now = header_text ''Last updated: '' now @ NL # ''---'' @ [NL]"
  by (simp add: header_def header_text_def)

lemma init_header_split: "init_header now = header_text ''Created: '' now @ NL # ''---'' @ [NL]"
  by (simp add: init_header_def header_text_def)

lemma header_text_no_separator:
  assumes "filter is_lt label = []" "filter is_lt now = []" "label \<noteq> []" "hd label \<noteq> CHR ''-''"
  shows "no_separator True (header_text label now)"
proof -
  have "\<not> sep_here (label @ now)"
    using assms(3,4) by (cases label) (auto simp: sep_here_def)
  then have "no_separator True (label @ now)"
    using assms(1,2) by (intro no_separator_lt_free) simp_all
  then have "no_separator True ((label @ now) @ [NL])"
    by (rule no_separator_snoc) simp
  then have a: "no_separator True (NL # label @ now @ [NL])" by simp
  have "no_separator True (''# OpenPaw Long-Term Memory'' @ NL # NL # label @ now @ [NL])"
    by (rule no_separator_line) (use a in \<open>simp_all add: is_lt_def sep_here_def\<close>)
  then show ?thesis by (simp add: header_text_def)
qed

lemma parse_block_header:
  assumes "label \<noteq> []" "\<not> is_ws (hd label)"
  shows "parse_block t (trim (header_text label now)) = None"
proof -
  let ?Y = "NL # label @ now @ [NL]"
  have "\<not> is_ws (CHR ''#'')" by (simp add: is_ws_def)
  then have "dropWhile is_ws (header_text label now) = header_text label now"
    by (simp add: header_text_def)
  then have t1: "trim (header_text label now) = rtrim (header_text label now)"
    by (simp add: trim_rtrim)
  have "hd label \<in> set ?Y" using assms(1) by (cases label) simp_all
  then have "trim ?Y \<noteq> []" using assms(2) unfolding trim_nonempty_set by blast
  then have ne: "rtrim ?Y \<noteq> []" by (rule rtrim_nonempty)
  have "rtrim ((''# OpenPaw Long-Term Memory'' @ [NL]) @ ?Y)
      = (''# OpenPaw Long-Term Memory'' @ [NL]) @ rtrim ?Y"
    using ne by (rule rtrim_append_keep)
  then have t2: "trim (header_text label now) = ''# OpenPaw Long-Term Memory'' @ NL # rtrim ?Y"
    using t1 by (simp add: header_text_def)
  have "NL \<notin> set ''# OpenPaw Long-Term Memory''" by (simp add: NL_def)
  then have "split_on [NL] (''# OpenPaw Long-Term Memory'' @ NL # rtrim ?Y)
      = ''# OpenPaw Long-Term Memory'' # split_on [NL] (rtrim ?Y)"
    by (rule split_on_NL_append)
  moreover have "\<not> html_comment ''# OpenPaw Long-Term Memory''"
    by (simp add: html_comment_def startsWith_def)
  moreover have "\<not> meta_line ''# OpenPaw Long-Term Memory''"
    by (simp add: meta_line_def is_key_char_def)
  ultimately show ?thesis
    unfolding parse_block_def t2 by (simp add: scan_content)
qed

lemma write_entries_split:
  "write_entries now es = header_text ''Last updated: '' now
     @ NL # CHR ''-'' # CHR ''-'' # CHR ''-'' # NL # join [NL] (map serializeEntry es)"
  by (simp add: write_entries_def header_def header_text_def)

lemma parseMemoryMd_write_entries:
  assumes "filter is_lt now = []" "list_all wf_entry es"
  shows "parseMemoryMd t (write_entries now es) = es"
proof -
  have "no_separator True (header_text ''Last updated: '' now)"
    using assms(1) by (intro header_text_no_separator) (simp_all add: is_lt_def)
  then have "blocks_of (write_entries now es)
      = (if trim (header_text ''Last updated: '' now) = [] then [] else [trim (header_text ''Last updated: '' now)])
        @ map (\<lambda>e. trim (block_text e)) es"
    unfolding write_entries_split using assms(2)
    by (simp only: blocks_of_block blocks_of_join_entries)
  moreover have "parse_block t (trim (header_text ''Last updated: '' now)) = None"
    by (rule parse_block_header) (simp_all add: is_ws_def)
  ultimately show ?thesis
    using assms(2)
    by (simp add: parseMemoryMd_def map_filter_append map_filter_parse_blocks List.map_filter_simps)
qed

lemma parseMemoryMd_init_header:
  assumes "filter is_lt now = []"
  shows "parseMemoryMd t (init_header now) = []"
proof -
  have "no_separator True (header_text ''Created: '' now)"
    using assms(1) by (intro header_text_no_separator) (simp_all add: is_lt_def)
  then have "blocks_of (header_text ''Created: '' now @ NL # CHR ''-'' # CHR ''-'' # CHR ''-'' # NL # [])
      = (if trim (header_text ''Created: '' now) = [] then [] else [trim (header_text ''Created: '' now)])
        @ blocks_of []"
    by (rule blocks_of_block)
  moreover have "parse_block t (trim (header_text ''Created: '' now)) = None"
    by (rule parse_block_header) (simp_all add: is_ws_def)
  ultimately show ?thesis
    by (simp add: parseMemoryMd_def init_header_split List.map_filter_simps)
qed

subsection \<open>Appending a block to a file\<close>

text \<open>
  \<open>appendDailyLog\<close> appends to whatever the file of the day holds. When that text is
  closed, the pieces of the longer text are the pieces of the two parts, and the
  entries are those of the file followed by the new one.
\<close>

lemma glue_cons_first: "P \<noteq> [] \<Longrightarrow> glue (cons_first c P) Q = cons_first c (glue P Q)"
proof (cases P)
  case Nil
  assume "P \<noteq> []"
  with Nil show ?thesis by simp
next
  case (Cons p ps)
  then show ?thesis by (cases ps) (simp_all add: glue_def)
qed

lemma glue_nil_cons: "P \<noteq> [] \<Longrightarrow> glue ([] # P) Q = [] # glue P Q"
  by (simp add: glue_def)

lemma sep_here_append_end:
  assumes "s \<noteq> []" "is_lt (last s)"
  shows "sep_here (s @ r) = sep_here s"
proof -
  obtain a l where s: "s = a @ [l]" using assms(1) by (cases s rule: rev_cases) auto
  then have l: "is_lt l" using assms(2) by simp
  show ?thesis
  proof (cases a)
    case Nil
    then show ?thesis using s l by simp
  next
    case (Cons c cs)
    have "sep_here ((a @ [l]) @ r) = sep_here a" using sep_here_append_lt[of a l r] Cons l by simp
    moreover have "sep_here (a @ [l]) = sep_here a" using sep_here_append_lt[of a l "[]"] Cons l by simp
    ultimately show ?thesis using s by simp
  qed
qed

lemma sep_here_length: "sep_here s \<Longrightarrow> 3 \<le> length s"
  by (auto simp: sep_here_def) (metis length_take min.cobounded1 length_Cons list.size(3) numeral_3_eq_3)

lemma split_sep_append:
  "raw \<noteq> [] \<Longrightarrow> is_lt (last raw) \<Longrightarrow>
   split_sep bol (raw @ r) = glue (split_sep bol raw) (split_sep True r)"
proof (induction bol raw rule: split_sep.induct)
  case (1 bol)
  then show ?case by simp
next
  case (2 bol c cs)
  have sh: "sep_here ((c # cs) @ r) = sep_here (c # cs)"
    using "2.prems" by (intro sep_here_append_end)
  show ?case
  proof (cases "bol \<and> sep_here (c # cs)")
    case True
    then have len: "3 \<le> length (c # cs)" using sep_here_length by blast
    have "drop 3 (c # cs) \<noteq> []"
    proof
      assume e: "drop 3 (c # cs) = []"
      with len have "length (c # cs) = 3" by simp
      then have "take 3 (c # cs) = c # cs" by simp
      with True have "c # cs = ''---''" by (simp add: sep_here_def)
      with "2.prems"(2) show False by (simp add: is_lt_def)
    qed
    moreover from this have "3 < length (c # cs)" by simp
    then have "last (drop 3 (c # cs)) = last (c # cs)" by (rule last_drop)
    ultimately have IH: "split_sep False (drop 3 (c # cs) @ r)
        = glue (split_sep False (drop 3 (c # cs))) (split_sep True r)"
      using "2.IH"(1)[OF True] "2.prems"(2) by simp
    have "drop 3 ((c # cs) @ r) = drop 3 (c # cs) @ r" using len by simp
    then have "split_sep bol ((c # cs) @ r) = [] # split_sep False (drop 3 (c # cs) @ r)"
      using True sh by (simp del: drop_append)
    also have "\<dots> = glue ([] # split_sep False (drop 3 (c # cs))) (split_sep True r)"
      unfolding IH by (simp add: glue_nil_cons)
    also have "[] # split_sep False (drop 3 (c # cs)) = split_sep bol (c # cs)"
      using True by simp
    finally show ?thesis .
  next
    case False
    then have F': "(bol \<and> sep_here (c # cs @ r)) = False" using sh by simp
    have step: "split_sep bol ((c # cs) @ r) = cons_first c (split_sep (is_lt c) (cs @ r))"
      by (simp only: append_Cons split_sep.simps(2) F' if_False)
    show ?thesis
    proof (cases cs)
      case Nil
      then have "is_lt c" using "2.prems"(2) by simp
      then have "split_sep bol ((c # cs) @ r) = cons_first c (split_sep True r)"
        using step Nil by simp
      moreover have "split_sep bol (c # cs) = [[c]]" using False Nil by simp
      moreover have "cons_first c (split_sep True r) = glue [[c]] (split_sep True r)"
        by (cases "split_sep True r") (simp_all add: glue_def)
      ultimately show ?thesis by simp
    next
      case (Cons d ds)
      then have "cs \<noteq> []" "is_lt (last cs)" using "2.prems"(2) by simp_all
      then have "split_sep (is_lt c) (cs @ r) = glue (split_sep (is_lt c) cs) (split_sep True r)"
        using "2.IH"(2)[OF False] by simp
      then have "split_sep bol ((c # cs) @ r)
          = glue (cons_first c (split_sep (is_lt c) cs)) (split_sep True r)"
        using step by (simp add: glue_cons_first)
      moreover have F2: "(bol \<and> sep_here (c # cs)) = False" using False by simp
      have "split_sep bol (c # cs) = cons_first c (split_sep (is_lt c) cs)"
        by (simp only: split_sep.simps(2) F2 if_False)
      ultimately show ?thesis by (simp only:)
    qed
  qed
qed

lemma blocks_of_append_closed:
  assumes "closed_text raw"
  shows "blocks_of (raw @ r) = blocks_of raw @ blocks_of r"
proof (cases "raw = []")
  case True
  then show ?thesis by simp
next
  case False
  let ?P = "split_sep True raw" and ?Q = "split_sep True r"
  have lt: "is_lt (last raw)" and blank: "trim (last ?P) = []"
    using assms False by (simp_all add: closed_text_def)
  have sp: "split_sep True (raw @ r) = glue ?P ?Q" using False lt by (rule split_sep_append)
  have ws: "list_all is_ws (last ?P)"
    using blank by (simp add: list_all_iff) (metis trim_nonempty_set)
  have "trim (last ?P @ hd ?Q) = trim (hd ?Q)" using ws by (rule trim_append_ws_left)
  moreover have "map trim (glue ?P ?Q)
      = map trim (butlast ?P) @ trim (last ?P @ hd ?Q) # map trim (tl ?Q)"
    by (simp add: glue_def)
  moreover have "trim (hd ?Q) # map trim (tl ?Q) = map trim ?Q"
    by (cases ?Q) simp_all
  ultimately have "map trim (glue ?P ?Q) = map trim (butlast ?P) @ map trim ?Q" by (simp only:)
  moreover have "filter (\<lambda>b. b \<noteq> []) (map trim ?P) = filter (\<lambda>b. b \<noteq> []) (map trim (butlast ?P))"
  proof -
    have "?P = butlast ?P @ [last ?P]" by simp
    then have "map trim ?P = map trim (butlast ?P) @ [trim (last ?P)]" by (metis map_append list.simps(8,9))
    then show ?thesis using blank by simp
  qed
  ultimately show ?thesis by (simp add: blocks_of_def sp)
qed

lemma parse_append_closed:
  "closed_text raw \<Longrightarrow> parseMemoryMd t (raw @ r) = parseMemoryMd t raw @ parseMemoryMd t r"
  by (simp add: parseMemoryMd_def blocks_of_append_closed map_filter_append)

lemma parse_appended_entry:
  assumes "closed_text raw" "wf_entry e"
  shows "parseMemoryMd t (raw @ serializeEntry e @ [NL]) = parseMemoryMd t raw @ [e]"
proof -
  have "parseMemoryMd t (log_text [e]) = [e]" using assms(2) by (intro parseMemoryMd_log_text) simp
  then show ?thesis using assms(1) by (simp add: parse_append_closed log_text_def)
qed

lemma closed_text_Nil: "closed_text []"
  by (simp add: closed_text_def trim_def)

lemma parse_single_entry: "wf_entry e \<Longrightarrow> parseMemoryMd t (serializeEntry e @ [NL]) = [e]"
  using parseMemoryMd_log_text[of "[e]" t] by (simp add: log_text_def)

lemma append_file_parse:
  assumes "distinct (map fst files)" "endsWith name ''.md''"
    and "case map_of files name of None \<Rightarrow> True | Some raw \<Rightarrow> closed_text raw"
    and "wf_entry e"
  shows "mset (concat (map (\<lambda>f. parseMemoryMd t (snd f))
            (md_files (append_file name (serializeEntry e @ [NL]) files))))
      = mset (concat (map (\<lambda>f. parseMemoryMd t (snd f)) (md_files files))) + {#e#}"
proof (cases "map_of files name")
  case None
  then show ?thesis
    using assms(2,4) by (simp add: append_file_def md_files_def parse_single_entry)
next
  case (Some raw)
  then have c: "closed_text raw" using assms(3) by simp
  let ?u = "\<lambda>f. if fst f = name then (fst f, snd f @ serializeEntry e @ [NL]) else f"
  let ?g = "\<lambda>f. parseMemoryMd t (snd f)"
  have "distinct (map fst fs) \<Longrightarrow> map_of fs name = Some raw \<Longrightarrow>
      mset (concat (map ?g (md_files (map ?u fs)))) = mset (concat (map ?g (md_files fs))) + {#e#}"
    for fs
  proof (induction fs)
    case Nil
    then show ?case by simp
  next
    case (Cons f fs)
    show ?case
    proof (cases "fst f = name")
      case True
      then have raw: "snd f = raw" using Cons.prems(2) by (cases f) simp
      have "name \<notin> fst ` set fs" using Cons.prems(1) True by auto
      then have "map ?u fs = fs" by (intro map_idI) auto
      moreover have "parseMemoryMd t (raw @ serializeEntry e @ [NL]) = parseMemoryMd t raw @ [e]"
        using c assms(4) by (rule parse_appended_entry)
      ultimately show ?thesis using True raw assms(2) by (simp add: md_files_def)
    next
      case False
      then have "map_of fs name = Some raw" using Cons.prems(2) by (cases f) (simp split: if_splits)
      then have "mset (concat (map ?g (md_files (map ?u fs)))) = mset (concat (map ?g (md_files fs))) + {#e#}"
        using Cons.IH Cons.prems(1) by simp
      then show ?thesis using False by (simp add: md_files_def)
    qed
  qed
  then show ?thesis using assms(1) Some by (simp add: append_file_def)
qed
section \<open>Stores reached by well-formed calls\<close>

lemma endsWith_md [simp]: "endsWith (d @ ''.md'') ''.md''"
  by (simp add: endsWith_def)

lemma md_files_rep: "md_files (map (\<lambda>d. (fst d @ ''.md'', log_text (snd d))) D)
    = map (\<lambda>d. (fst d @ ''.md'', log_text (snd d))) D"
  by (simp add: md_files_def)

lemma store_rep_long: "store_rep st L D \<Longrightarrow> readLongTerm t st = L"
  by (auto simp: store_rep_def readLongTerm_def)

lemma store_rep_daily: "store_rep st L D \<Longrightarrow> readDaily t st = concat (map snd D)"
proof -
  assume r: "store_rep st L D"
  then have wf: "list_all (\<lambda>d. list_all wf_entry (snd d)) D" by (simp add: store_rep_def)
  have "concat (map (\<lambda>f. parseMemoryMd t (snd f)) (map (\<lambda>d. (fst d @ ''.md'', log_text (snd d))) D))
      = concat (map snd D)"
    using wf by (induction D) (simp_all add: parseMemoryMd_log_text)
  then show ?thesis using r by (simp add: store_rep_def readDaily_def md_files_rep)
qed

lemma store_rep_all: "store_rep st L D \<Longrightarrow> readAllEntries t st = L @ concat (map snd D)"
  by (simp add: readAllEntries_def store_rep_long store_rep_daily)

lemma store_rep_fresh: "filter is_lt now = [] \<Longrightarrow> store_rep (fresh now) [] []"
  by (simp add: store_rep_def fresh_def init_def empty_store_def rebuildIndex_def
      parseMemoryMd_init_header)

lemma store_rep_wf_all:
  "store_rep st L D \<Longrightarrow> list_all wf_entry (readAllEntries t st)"
  by (auto simp: store_rep_all store_rep_def list_all_iff)


lemma save_ok_now: "save_ok now uid text options \<Longrightarrow> filter is_lt now = []"
  by (simp add: save_ok_def field_ok_def)

lemma save_entry_fields [simp]:
  "id_e (save_entry now uid text options st) = nullish (opt_id options) uid"
  "type_e (save_entry now uid text options st) = nullish (opt_type options) ''fact''"
  "content (save_entry now uid text options st) = trim text"
  "updatedAt (save_entry now uid text options st) = now"
  "source (save_entry now uid text options st) = nullish (opt_source options) ''agent''"
  by (simp_all add: save_entry_def)

lemma save_entry_createdAt:
  "createdAt (save_entry now uid text options st) = now
   \<or> (\<exists>x\<in>set (readAllEntries now st). createdAt (save_entry now uid text options st) = createdAt x)"
  by (auto simp: save_entry_def getEntry_def find_Some_iff split: option.splits)

lemma save_entry_wf:
  assumes r: "store_rep st L D" and ok: "save_ok now uid text options"
  shows "wf_entry (save_entry now uid text options st)"
proof -
  let ?e = "save_entry now uid text options st"
  have "field_ok (createdAt ?e)"
    using save_entry_createdAt[of now uid "text" options st]
  proof
    assume "createdAt ?e = now"
    then show ?thesis using ok by (simp add: save_ok_def)
  next
    assume "\<exists>x\<in>set (readAllEntries now st). createdAt ?e = createdAt x"
    then obtain x where x: "x \<in> set (readAllEntries now st)" "createdAt ?e = createdAt x" by blast
    have "list_all wf_entry (readAllEntries now st)" using r by (rule store_rep_wf_all)
    with x(1) have "wf_entry x" by (simp add: list_all_iff)
    with x(2) show ?thesis by (simp add: wf_entry_def meta_ok_def)
  qed
  moreover have "tags ?e \<noteq> [] \<and> list_all tag_ok (tags ?e)"
    using ok by (auto simp: save_ok_def save_entry_def split: option.splits)
  moreover have "tight (trim text)" using ok by (simp add: save_ok_def trim_tight_result)
  ultimately show ?thesis
    using ok by (simp add: wf_entry_def meta_ok_def save_ok_def)
qed

lemma findIndex_None: "(findIndex P xs = None) = (\<forall>x\<in>set xs. \<not> P x)"
  by (induction xs) auto

lemma findIndex_Some: "findIndex P xs = Some i \<Longrightarrow> i < length xs \<and> P (xs ! i)"
proof (induction xs arbitrary: i)
  case Nil
  then show ?case by simp
next
  case (Cons x xs)
  then show ?case by (cases "P x") auto
qed

lemma upsert_entries_put: "upsert_entries M e L = slice_from (- int M) (sort_key updatedAt (put_entry e L))"
  by (simp add: upsert_entries_def put_entry_def)

lemma put_entry_new: "id_e e \<notin> set (map id_e L) \<Longrightarrow> put_entry e L = L @ [e]"
proof -
  assume "id_e e \<notin> set (map id_e L)"
  then have "findIndex (\<lambda>x. id_e x = id_e e) L = None"
    by (auto simp: findIndex_None image_iff)
  then show ?thesis by (simp add: put_entry_def)
qed

lemma put_entry_set: "set (put_entry e L) \<subseteq> insert e (set L)"
proof (cases "findIndex (\<lambda>x. id_e x = id_e e) L")
  case None
  then show ?thesis by (simp add: put_entry_def)
next
  case (Some i)
  then show ?thesis using set_update_subset_insert[of L i e] by (simp add: put_entry_def)
qed

lemma put_entry_ids:
  "map id_e (put_entry e L) = (if id_e e \<in> set (map id_e L) then map id_e L else map id_e L @ [id_e e])"
proof (cases "findIndex (\<lambda>x. id_e x = id_e e) L")
  case None
  then have "id_e e \<notin> set (map id_e L)" by (auto simp: findIndex_None image_iff)
  then show ?thesis using None by (simp add: put_entry_def)
next
  case (Some i)
  then have i: "i < length L" "id_e (L ! i) = id_e e" using findIndex_Some[OF Some] by simp_all
  then have "id_e e \<in> set (map id_e L)" by (metis length_map nth_map nth_mem)
  moreover have "map id_e (L[i := e]) = map id_e L"
    using i by (simp add: map_update list_update_same_conv)
  ultimately show ?thesis using Some by (simp add: put_entry_def)
qed

lemma put_entry_distinct: "distinct (map id_e L) \<Longrightarrow> distinct (map id_e (put_entry e L))"
  by (simp add: put_entry_ids)

lemma slice_from_drop:
  "slice_from (- int M) xs = drop (if M = 0 then 0 else length xs - M) xs"
  by (auto simp: slice_from_def max_def nat_diff_distrib' intro: arg_cong2[where f = drop])

lemma slice_from_set: "set (slice_from (- int M) xs) \<subseteq> set xs"
  by (simp add: slice_from_drop set_drop_subset)

lemma distinct_map_drop: "distinct (map f xs) \<Longrightarrow> distinct (map f (drop n xs))"
  by (simp add: drop_map[symmetric])

lemma distinct_map_sort_key: "distinct (map g (sort_key f xs)) = distinct (map g xs)"
proof -
  have "mset (map g (sort_key f xs)) = mset (map g xs)" by simp
  then show ?thesis by (rule mset_eq_imp_distinct_iff)
qed

lemma upsert_entries_set: "set (upsert_entries M e L) \<subseteq> insert e (set L)"
proof -
  have "set (upsert_entries M e L) \<subseteq> set (sort_key updatedAt (put_entry e L))"
    unfolding upsert_entries_put by (rule slice_from_set)
  then show ?thesis using put_entry_set[of e L] by auto
qed

lemma upsert_entries_wf:
  "list_all wf_entry L \<Longrightarrow> wf_entry e \<Longrightarrow> list_all wf_entry (upsert_entries M e L)"
  using upsert_entries_set[of M e L] by (auto simp: list_all_iff)

lemma upsert_entries_distinct:
  "distinct (map id_e L) \<Longrightarrow> distinct (map id_e (upsert_entries M e L))"
  unfolding upsert_entries_put slice_from_drop
  by (intro distinct_map_drop) (simp add: distinct_map_sort_key put_entry_distinct)

lemma store_rep_save_fact:
  assumes r: "store_rep st L D" and ok: "save_ok now uid text options"
    and t: "nullish (opt_type options) ''fact'' \<noteq> ''log''"
  shows "store_rep (snd (save M now uid text options st))
           (upsert_entries M (save_entry now uid text options st) L) D"
proof -
  let ?e = "save_entry now uid text options st"
  let ?L = "upsert_entries M ?e L"
  from r obtain raw where raw: "memory_md st = Some raw" "\<And>t. parseMemoryMd t raw = L"
    by (auto simp: store_rep_def)
  have "wf_entry ?e" using r ok by (rule save_entry_wf)
  moreover have "list_all wf_entry L" using r by (simp add: store_rep_def)
  ultimately have wf: "list_all wf_entry ?L" by (intro upsert_entries_wf)
  have md: "memory_md (snd (save M now uid text options st)) = Some (write_entries now ?L)"
    using t raw by (simp add: save_def Let_def upsertLongTerm_def)
  have dd: "daily_dir (snd (save M now uid text options st)) = daily_dir st"
    using t by (simp add: save_def Let_def upsertLongTerm_def)
  have "\<And>t. parseMemoryMd t (write_entries now ?L) = ?L"
    using wf ok by (intro parseMemoryMd_write_entries) (simp_all add: save_ok_now)
  moreover have "distinct (map id_e ?L)"
    using r by (intro upsert_entries_distinct) (simp add: store_rep_def)
  ultimately show ?thesis using r wf md dd by (simp add: store_rep_def)
qed

lemma log_text_snoc: "log_text (es @ [e]) = log_text es @ serializeEntry e @ [NL]"
  by (simp add: log_text_def)

lemma map_of_md:
  "(map_of (map (\<lambda>d. (fst d @ ''.md'', log_text (snd d))) D) (d @ ''.md'') = None) = (map_of D d = None)"
  by (induction D) auto

lemma append_file_rep:
  "append_file (d @ ''.md'') (serializeEntry e @ [NL]) (map (\<lambda>d. (fst d @ ''.md'', log_text (snd d))) D)
    = map (\<lambda>d. (fst d @ ''.md'', log_text (snd d))) (add_log d e D)"
proof (cases "map_of D d")
  case None
  have "log_text [e] = serializeEntry e @ [NL]" by (simp add: log_text_def)
  then show ?thesis using None by (simp add: append_file_def add_log_def map_of_md)
next
  case (Some y)
  have "map (\<lambda>f. if fst f = d @ ''.md'' then (fst f, snd f @ serializeEntry e @ [NL]) else f)
          (map (\<lambda>d. (fst d @ ''.md'', log_text (snd d))) D)
      = map (\<lambda>d. (fst d @ ''.md'', log_text (snd d)))
          (map (\<lambda>x. if fst x = d then (fst x, snd x @ [e]) else x) D)"
    by (induction D) (auto simp: log_text_snoc)
  then show ?thesis using Some by (simp add: append_file_def add_log_def map_of_md)
qed

lemma add_log_names: "map fst (add_log d e D) = (if map_of D d = None then map fst D @ [d] else map fst D)"
proof -
  have "map fst (map (\<lambda>x. if fst x = d then (fst x, snd x @ [e]) else x) D) = map fst D"
    by (induction D) auto
  then show ?thesis by (simp add: add_log_def)
qed

lemma add_log_distinct: "distinct (map fst D) \<Longrightarrow> distinct (map fst (add_log d e D))"
  by (auto simp: add_log_names map_of_eq_None_iff)

lemma add_log_wf:
  "list_all (\<lambda>d. list_all wf_entry (snd d)) D \<Longrightarrow> wf_entry e
   \<Longrightarrow> list_all (\<lambda>d. list_all wf_entry (snd d)) (add_log d e D)"
  by (auto simp: add_log_def list_all_iff)

lemma add_log_mset:
  "distinct (map fst D) \<Longrightarrow> mset (concat (map snd (add_log d e D))) = mset (concat (map snd D)) + {#e#}"
proof (cases "map_of D d = None")
  case True
  then show ?thesis by (simp add: add_log_def)
next
  case False
  assume "distinct (map fst D)"
  moreover from False have "d \<in> set (map fst D)" by (simp add: map_of_eq_None_iff)
  ultimately have "mset (concat (map snd (map (\<lambda>x. if fst x = d then (fst x, snd x @ [e]) else x) D)))
      = mset (concat (map snd D)) + {#e#}"
  proof (induction D)
    case Nil
    then show ?case by simp
  next
    case (Cons x D)
    show ?case
    proof (cases "fst x = d")
      case True
      then have "d \<notin> set (map fst D)" using Cons.prems(1) by auto
      then have "map (\<lambda>x. if fst x = d then (fst x, snd x @ [e]) else x) D = D"
        by (induction D) auto
      then show ?thesis using True by simp
    next
      case False
      then have "d \<in> set (map fst D)" using Cons.prems(2) by auto
      then show ?thesis using Cons False by simp
    qed
  qed
  with False show ?thesis by (simp add: add_log_def)
qed

lemma store_rep_save_log:
  assumes r: "store_rep st L D" and ok: "save_ok now uid text options"
    and t: "nullish (opt_type options) ''fact'' = ''log''"
  shows "store_rep (snd (save M now uid text options st)) L
           (add_log (today now) (save_entry now uid text options st) D)"
proof -
  let ?e = "save_entry now uid text options st"
  have wf: "wf_entry ?e" using r ok by (rule save_entry_wf)
  have md: "memory_md (snd (save M now uid text options st)) = memory_md st"
    using t by (simp add: save_def Let_def appendDailyLog_def)
  have dd: "daily_dir (snd (save M now uid text options st))
      = append_file (today now @ ''.md'') (serializeEntry ?e @ [NL]) (daily_dir st)"
    using t by (simp add: save_def Let_def appendDailyLog_def)
  show ?thesis
    using r wf unfolding store_rep_def md dd
    by (simp add: append_file_rep add_log_distinct add_log_wf)
qed

lemma forget_result:
  assumes r: "store_rep st L D" and ok: "field_ok now"
  shows "store_rep (snd (forget now i st)) (filter (\<lambda>e. id_e e \<noteq> i) L) D"
    and "fst (forget now i st) = (i \<in> set (map id_e L))"
proof -
  from r obtain raw where raw: "memory_md st = Some raw" "\<And>t. parseMemoryMd t raw = L"
    by (auto simp: store_rep_def)
  let ?F = "filter (\<lambda>e. id_e e \<noteq> i) L"
  have len: "(length ?F = length L) = (i \<notin> set (map id_e L))"
  proof
    assume "length ?F = length L"
    then have "?F = L" by (metis filter_True length_filter_less less_irrefl_nat list_all_iff filter_id_conv)
    then have "\<forall>e\<in>set L. id_e e \<noteq> i" by (simp add: filter_id_conv)
    then show "i \<notin> set (map id_e L)" by auto
  next
    assume "i \<notin> set (map id_e L)"
    then have "?F = L" by (auto simp: filter_id_conv)
    then show "length ?F = length L" by simp
  qed
  show "fst (forget now i st) = (i \<in> set (map id_e L))"
    using raw len by (simp add: forget_def)
  have wf: "list_all wf_entry ?F" using r by (auto simp: store_rep_def list_all_iff)
  have p: "\<And>t. parseMemoryMd t (write_entries now ?F) = ?F"
    using wf ok by (intro parseMemoryMd_write_entries) (simp_all add: field_ok_def)
  have d: "distinct (map id_e ?F)" using r by (simp add: store_rep_def distinct_map_filter)
  show "store_rep (snd (forget now i st)) ?F D"
  proof (cases "length ?F = length L")
    case True
    then have "?F = L" using len by (auto simp: filter_id_conv)
    moreover have "snd (forget now i st) = st" using raw True by (simp add: forget_def)
    ultimately show ?thesis using r by simp
  next
    case False
    then have "snd (forget now i st) = st\<lparr>memory_md := Some (write_entries now ?F),
        memory_fts := filter (\<lambda>r. r_id r \<noteq> i) (memory_fts st)\<rparr>"
      using raw by (simp add: forget_def)
    then show ?thesis using r wf p d by (simp add: store_rep_def)
  qed
qed

lemma store_rep_shortTerm [simp]: "store_rep (st\<lparr>shortTerm := w\<rparr>) L D = store_rep st L D"
  by (simp add: store_rep_def)

lemma flush_type: "nullish (opt_type (flush_options now)) ''fact'' = ''log''"
  by (simp add: flush_options_def nullish_def)

lemma flush_save_entry:
  "save_entry now uid (session_summary agentSummary (shortTerm st)) (flush_options now) st
     = flush_entry now uid agentSummary st"
  by (simp add: save_entry_def flush_options_def flush_entry_def nullish_def)

lemma store_rep_flush:
  assumes "store_rep st L D" "op_ok st (Flush now uid agentSummary)"
  shows "store_rep (flushSession M now uid agentSummary st) L
     (add_log (today now) (flush_entry now uid agentSummary st) D)"
proof -
  have "store_rep (snd (save M now uid (session_summary agentSummary (shortTerm st)) (flush_options now) st)) L
      (add_log (today now)
        (save_entry now uid (session_summary agentSummary (shortTerm st)) (flush_options now) st) D)"
    using assms by (intro store_rep_save_log flush_type) simp_all
  then show ?thesis by (simp add: flushSession_def clearShortTerm_def flush_save_entry)
qed

lemma ids_distinct_log:
  assumes "distinct (map fst D)" "ids_distinct L D" "id_e e \<notin> set (map id_e (L @ concat (map snd D)))"
  shows "ids_distinct L (add_log d e D)"
proof -
  have "mset (L @ concat (map snd (add_log d e D))) = mset (e # L @ concat (map snd D))"
    using assms(1) by (simp add: add_log_mset)
  then have "mset (map id_e (L @ concat (map snd (add_log d e D))))
      = mset (map id_e (e # L @ concat (map snd D)))"
    by (metis mset_map)
  then have "distinct (map id_e (L @ concat (map snd (add_log d e D))))
      = distinct (map id_e (e # L @ concat (map snd D)))"
    by (rule mset_eq_imp_distinct_iff)
  then show ?thesis using assms(2,3) by (simp add: ids_distinct_def)
qed

lemma ids_distinct_fact:
  assumes "distinct (map id_e L)" "ids_distinct L D" "id_e e \<notin> set (map id_e (concat (map snd D)))"
  shows "ids_distinct (upsert_entries M e L) D"
proof -
  have "set (map id_e (upsert_entries M e L)) \<subseteq> insert (id_e e) (set (map id_e L))"
    using upsert_entries_set[of M e L] by auto
  moreover have "distinct (map id_e (upsert_entries M e L))"
    using assms(1) by (rule upsert_entries_distinct)
  moreover have "distinct (map id_e (concat (map snd D)))"
    "set (map id_e L) \<inter> set (map id_e (concat (map snd D))) = {}"
    using assms(2) by (simp_all only: ids_distinct_def map_append distinct_append)
  ultimately have "distinct (map id_e (upsert_entries M e L)) \<and> distinct (map id_e (concat (map snd D)))
      \<and> set (map id_e (upsert_entries M e L)) \<inter> set (map id_e (concat (map snd D))) = {}"
    using assms(3) by blast
  then show ?thesis by (simp only: ids_distinct_def map_append distinct_append)
qed

lemma ids_distinct_filter: "ids_distinct L D \<Longrightarrow> ids_distinct (filter P L) D"
  by (auto simp: ids_distinct_def distinct_map_filter)

lemma exec_rep:
  assumes r: "store_rep st L D" and ok: "op_ok st c"
  shows "\<exists>L' D'. store_rep (exec MST M c st) L' D'
     \<and> (op_fresh st c \<longrightarrow> ids_distinct L D \<longrightarrow> ids_distinct L' D')"
proof (cases c)
  case (Save now uid tx opts)
  let ?e = "save_entry now uid tx opts st"
  show ?thesis
  proof (cases "nullish (opt_type opts) ''fact'' = ''log''")
    case True
    have "store_rep (exec MST M c st) L (add_log (today now) ?e D)"
      using r ok True Save by (simp add: store_rep_save_log)
    moreover have "op_fresh st c \<longrightarrow> ids_distinct L D \<longrightarrow> ids_distinct L (add_log (today now) ?e D)"
      using r True Save
      by (auto simp: save_fresh_def store_rep_all[OF r] store_rep_def intro!: ids_distinct_log)
    ultimately show ?thesis by blast
  next
    case False
    have "store_rep (exec MST M c st) (upsert_entries M ?e L) D"
      using r ok False Save by (simp add: store_rep_save_fact)
    moreover have "op_fresh st c \<longrightarrow> ids_distinct L D \<longrightarrow> ids_distinct (upsert_entries M ?e L) D"
      using r False Save
      by (auto simp: save_fresh_def store_rep_daily[OF r] store_rep_def intro!: ids_distinct_fact)
    ultimately show ?thesis by blast
  qed
next
  case (Forget now i)
  have "store_rep (exec MST M c st) (filter (\<lambda>e. id_e e \<noteq> i) L) D"
    using r ok Forget by (simp add: forget_result)
  then show ?thesis using ids_distinct_filter by blast
next
  case (Flush now uid agentSummary)
  let ?e = "flush_entry now uid agentSummary st"
  have "store_rep (exec MST M c st) L (add_log (today now) ?e D)"
    using r ok Flush by (simp add: store_rep_flush)
  moreover have "op_fresh st c \<longrightarrow> ids_distinct L D \<longrightarrow> ids_distinct L (add_log (today now) ?e D)"
    using r Flush
    by (auto simp: save_fresh_def flush_type store_rep_all[OF r] store_rep_def flush_entry_def
        flush_options_def nullish_def intro!: ids_distinct_log)
  ultimately show ?thesis by blast
next
  case (Add msg)
  then show ?thesis using r by (auto simp: addToShortTerm_def)
qed

lemma run_rep:
  "store_rep st L D \<Longrightarrow> ops_ok MST M cs st \<Longrightarrow>
   \<exists>L' D'. store_rep (run MST M cs st) L' D'
     \<and> (ops_fresh MST M cs st \<longrightarrow> ids_distinct L D \<longrightarrow> ids_distinct L' D')"
proof (induction cs arbitrary: st L D)
  case Nil
  then show ?case by auto
next
  case (Cons c cs)
  from Cons.prems have ok: "op_ok st c" "ops_ok MST M cs (exec MST M c st)" by simp_all
  obtain L1 D1 where 1: "store_rep (exec MST M c st) L1 D1"
    "op_fresh st c \<longrightarrow> ids_distinct L D \<longrightarrow> ids_distinct L1 D1"
    using exec_rep[OF Cons.prems(1) ok(1)] by blast
  obtain L2 D2 where 2: "store_rep (run MST M cs (exec MST M c st)) L2 D2"
    "ops_fresh MST M cs (exec MST M c st) \<longrightarrow> ids_distinct L1 D1 \<longrightarrow> ids_distinct L2 D2"
    using Cons.IH[OF 1(1) ok(2)] by blast
  show ?case using 1 2 by auto
qed

lemma reached_rep:
  assumes "field_ok now0" "ops_ok MST M cs (fresh now0)"
  shows "\<exists>L D. store_rep (run MST M cs (fresh now0)) L D
     \<and> (ops_fresh MST M cs (fresh now0) \<longrightarrow> ids_distinct L D)"
proof -
  have "store_rep (fresh now0) [] []" using assms(1) by (simp add: store_rep_fresh field_ok_def)
  moreover have "ids_distinct [] []" by (simp add: ids_distinct_def)
  ultimately show ?thesis using run_rep[of "fresh now0" "[]" "[]" MST M cs] assms(2) by blast
qed

subsection \<open>The files of a reached store\<close>

lemma last_cons_first_trim: "P \<noteq> [] \<Longrightarrow> is_ws c \<Longrightarrow> trim (last (cons_first c P)) = trim (last P)"
proof (cases P)
  case Nil
  assume "P \<noteq> []"
  with Nil show ?thesis by simp
next
  case (Cons p ps)
  assume "is_ws c"
  then show ?thesis using Cons by (cases ps) (simp_all add: trim_cons_ws)
qed

lemma log_text_last: "es \<noteq> [] \<Longrightarrow> log_text es \<noteq> [] \<and> last (log_text es) = NL"
proof (induction es)
  case Nil
  then show ?case by simp
next
  case (Cons e es)
  show ?case
  proof (cases "es = []")
    case True
    then show ?thesis by (simp add: log_text_def)
  next
    case False
    then have "log_text es \<noteq> [] \<and> last (log_text es) = NL" by (rule Cons.IH)
    moreover have "log_text (e # es) = (serializeEntry e @ [NL]) @ log_text es" by (simp add: log_text_def)
    ultimately show ?thesis by (simp only: last_appendR) simp
  qed
qed

lemma closed_log_text: "list_all wf_entry es \<Longrightarrow> closed_text (log_text es)"
proof (induction es)
  case Nil
  then show ?case by (simp add: log_text_def closed_text_Nil)
next
  case (Cons e es)
  let ?P = "split_sep True (log_text es)"
  have IH: "trim (last ?P) = []" using Cons by (simp add: closed_text_def)
  have ns: "no_separator True (block_text e)" using Cons.prems by (simp add: wf_entry_no_separator)
  have "log_text (e # es) = block_text e @ NL # ''---'' @ NL # log_text es"
    by (simp add: log_text_def serializeEntry_block)
  moreover have "split_sep True (block_text e @ NL # ''---'' @ NL # log_text es)
      = (block_text e @ [NL]) # split_sep False (NL # log_text es)"
    using split_sep_block[OF ns, of NL "NL # log_text es"] by (simp add: is_lt_def NL_def)
  moreover have "split_sep False (NL # log_text es) = cons_first NL ?P" by (simp add: is_lt_def NL_def)
  ultimately have "split_sep True (log_text (e # es)) = (block_text e @ [NL]) # cons_first NL ?P"
    by (simp only:)
  moreover have "cons_first NL ?P \<noteq> []" by (cases ?P) simp_all
  ultimately have "last (split_sep True (log_text (e # es))) = last (cons_first NL ?P)"
    by (simp only: last.simps if_False)
  moreover have "trim (last (cons_first NL ?P)) = trim (last ?P)"
    by (rule last_cons_first_trim) (simp_all add: is_ws_def NL_def)
  ultimately have "trim (last (split_sep True (log_text (e # es)))) = []" using IH by (simp only:)
  moreover have "is_lt (last (log_text (e # es)))"
    using log_text_last[of "e # es"] by (simp add: is_lt_def NL_def)
  ultimately show ?case by (simp only: closed_text_def) simp
qed

text \<open>A represented store meets what the theorems on \<open>flushSession\<close> and \<open>forget\<close>
  below ask of a store, and so does every store reached by well-formed calls.\<close>

lemma store_rep_files:
  assumes "store_rep st L D"
  shows "distinct (map fst (daily_dir st))"
    and "case map_of (daily_dir st) name of None \<Rightarrow> True | Some raw \<Rightarrow> closed_text raw"
    and "list_all wf_entry (readLongTerm t st)"
proof -
  have dd: "daily_dir st = map (\<lambda>d. (fst d @ ''.md'', log_text (snd d))) D"
    and di: "distinct (map fst D)" and wf: "list_all (\<lambda>d. list_all wf_entry (snd d)) D"
    using assms by (simp_all add: store_rep_def)
  have "map fst (daily_dir st) = map (\<lambda>n. n @ ''.md'') (map fst D)" by (simp add: dd comp_def)
  moreover have "inj_on (\<lambda>n::string. n @ ''.md'') (set (map fst D))" by (simp add: inj_on_def)
  ultimately show "distinct (map fst (daily_dir st))" using di by (simp only: distinct_map)
  show "case map_of (daily_dir st) name of None \<Rightarrow> True | Some raw \<Rightarrow> closed_text raw"
  proof (cases "map_of (daily_dir st) name")
    case None
    then show ?thesis by simp
  next
    case (Some raw)
    then have "(name, raw) \<in> set (daily_dir st)" by (rule map_of_SomeD)
    then obtain d where "d \<in> set D" "raw = log_text (snd d)" by (auto simp: dd)
    moreover from this wf have "list_all wf_entry (snd d)" by (simp add: list_all_iff)
    ultimately show ?thesis using Some by (simp add: closed_log_text)
  qed
  have "list_all wf_entry L" using assms by (simp add: store_rep_def)
  then show "list_all wf_entry (readLongTerm t st)"
    by (simp only: store_rep_long[OF assms])
qed

lemma reached_files:
  assumes "field_ok now0" "ops_ok MST M cs (fresh now0)"
  shows "distinct (map fst (daily_dir (run MST M cs (fresh now0))))"
    and "case map_of (daily_dir (run MST M cs (fresh now0))) name of
           None \<Rightarrow> True | Some raw \<Rightarrow> closed_text raw"
    and "list_all wf_entry (readLongTerm t (run MST M cs (fresh now0)))"
proof -
  obtain L D where r: "store_rep (run MST M cs (fresh now0)) L D"
    using reached_rep[OF assms] by blast
  show "distinct (map fst (daily_dir (run MST M cs (fresh now0))))"
    using r by (rule store_rep_files(1))
  show "case map_of (daily_dir (run MST M cs (fresh now0))) name of
           None \<Rightarrow> True | Some raw \<Rightarrow> closed_text raw"
    using r by (rule store_rep_files(2))
  show "list_all wf_entry (readLongTerm t (run MST M cs (fresh now0)))"
    using r by (rule store_rep_files(3))
qed
section \<open>Stores of plain entries\<close>

text \<open>
  The id of an entry comes back from the text form under weaker conditions than the
  entry itself. This section follows the plain entries through the text form and
  through the operations of the manager.
\<close>

lemma join_lt_free:
  "list_all (\<lambda>t. filter is_lt t = []) ts \<Longrightarrow> filter is_lt (join '', '' ts) = []"
  by (induction ts rule: induct_list012) (simp_all add: is_lt_def)

lemma six_lines_no_separator:
  assumes "filter is_lt a1 = []" "filter is_lt a2 = []" "filter is_lt a3 = []"
    "filter is_lt a4 = []" "filter is_lt a5 = []" "filter is_lt a6 = []"
    and "\<not> sep_here a1" "\<not> sep_here a2" "\<not> sep_here a3" "\<not> sep_here a4" "\<not> sep_here a5"
      "\<not> sep_here a6"
    and "no_separator True b"
  shows "no_separator True (a1 @ NL # a2 @ NL # a3 @ NL # a4 @ NL # a5 @ NL # a6 @ NL # b)"
proof -
  have 6: "no_separator True (a6 @ NL # b)" using assms(6,12,13) by (rule no_separator_line)
  have 5: "no_separator True (a5 @ NL # a6 @ NL # b)" using assms(5,11) 6 by (rule no_separator_line)
  have 4: "no_separator True (a4 @ NL # a5 @ NL # a6 @ NL # b)" using assms(4,10) 5 by (rule no_separator_line)
  have 3: "no_separator True (a3 @ NL # a4 @ NL # a5 @ NL # a6 @ NL # b)"
    using assms(3,9) 4 by (rule no_separator_line)
  have 2: "no_separator True (a2 @ NL # a3 @ NL # a4 @ NL # a5 @ NL # a6 @ NL # b)"
    using assms(2,8) 3 by (rule no_separator_line)
  show ?thesis using assms(1,7) 2 by (rule no_separator_line)
qed

lemma key_line_no_sep_here [simp]:
  "\<not> sep_here (''id: '' @ x)" "\<not> sep_here (''type: '' @ x)" "\<not> sep_here (''tags: '' @ x)"
  "\<not> sep_here (''createdAt: '' @ x)" "\<not> sep_here (''updatedAt: '' @ x)" "\<not> sep_here (''source: '' @ x)"
  by (simp_all add: sep_here_def)

lemma key_line_lt_free:
  "filter is_lt x = [] \<Longrightarrow> filter is_lt (''id: '' @ x) = []"
  "filter is_lt x = [] \<Longrightarrow> filter is_lt (''type: '' @ x) = []"
  "filter is_lt x = [] \<Longrightarrow> filter is_lt (''tags: '' @ x) = []"
  "filter is_lt x = [] \<Longrightarrow> filter is_lt (''createdAt: '' @ x) = []"
  "filter is_lt x = [] \<Longrightarrow> filter is_lt (''updatedAt: '' @ x) = []"
  "filter is_lt x = [] \<Longrightarrow> filter is_lt (''source: '' @ x) = []"
  by (simp_all add: is_lt_def)

lemma plain_fields_lt_free:
  assumes "plain_entry e"
  shows "filter is_lt (id_e e) = []" "filter is_lt (type_e e) = []"
    "filter is_lt (join '', '' (tags e)) = []"
    "filter is_lt (createdAt e) = []" "filter is_lt (updatedAt e) = []" "filter is_lt (source e) = []"
  using assms by (simp_all add: plain_entry_def field_ok_lt_free join_lt_free)

lemma block_text_lines:
  "block_text e = (''id: '' @ id_e e) @ NL # (''type: '' @ type_e e) @ NL
     # (''tags: '' @ join '', '' (tags e)) @ NL # (''createdAt: '' @ createdAt e) @ NL
     # (''updatedAt: '' @ updatedAt e) @ NL # (''source: '' @ source e) @ NL # (NL # content e @ [NL])"
  by (simp add: block_text_def meta_text_def)

lemma plain_block_no_separator:
  assumes "plain_entry e"
  shows "no_separator True (block_text e)"
proof -
  note f = plain_fields_lt_free[OF assms]
  have "no_separator True (content e)" using assms by (simp add: plain_entry_def)
  then have b: "no_separator True (NL # content e @ [NL])" by (simp add: no_separator_snoc)
  show ?thesis
    unfolding block_text_lines
    by (rule six_lines_no_separator)
       (simp_all only: key_line_lt_free f key_line_no_sep_here b not_False_eq_True)
qed

lemma wf_entry_plain: "wf_entry e \<Longrightarrow> plain_entry e"
  by (auto simp: wf_entry_def meta_ok_def plain_entry_def tag_ok_def field_ok_def list_all_iff)


lemma map_filter_reparse:
  "List.map_filter (parse_block t) (map (\<lambda>e. trim (block_text e)) es) = List.map_filter (reparse t) es"
  by (induction es) (simp_all add: List.map_filter_simps reparse_def split: option.splits)

lemma blocks_of_serialized:
  assumes "no_separator True (block_text e)"
  shows "blocks_of (serializeEntry e @ NL # r) = trim (block_text e) # blocks_of r"
proof -
  have "serializeEntry e @ NL # r = block_text e @ NL # CHR ''-'' # CHR ''-'' # CHR ''-'' # NL # r"
    by (simp add: serializeEntry_block)
  then show ?thesis using assms by (simp only: blocks_of_block trim_block_text_nonempty if_False) simp
qed

lemma parse_serialized:
  assumes "no_separator True (block_text e)"
  shows "parseMemoryMd t (serializeEntry e @ [NL]) = (case reparse t e of None \<Rightarrow> [] | Some x \<Rightarrow> [x])"
  using blocks_of_serialized[OF assms, of "[]"]
  by (simp add: parseMemoryMd_def reparse_def List.map_filter_simps split: option.splits)

lemma blocks_of_join_plain:
  "list_all (\<lambda>e. no_separator True (block_text e)) es
   \<Longrightarrow> blocks_of (join [NL] (map serializeEntry es)) = map (\<lambda>e. trim (block_text e)) es"
proof (induction es rule: induct_list012)
  case 1
  then show ?case by simp
next
  case (2 e)
  then show ?case
    by (simp add: serializeEntry_block blocks_of_last trim_block_text_nonempty)
next
  case (3 e e' es)
  have "join [NL] (map serializeEntry (e # e' # es))
      = serializeEntry e @ NL # join [NL] (map serializeEntry (e' # es))"
    by simp
  moreover have "no_separator True (block_text e)" using 3(3) by simp
  moreover have "blocks_of (join [NL] (map serializeEntry (e' # es))) = map (\<lambda>e. trim (block_text e)) (e' # es)"
    using 3 by simp
  ultimately show ?case by (simp only: blocks_of_serialized list.map)
qed

lemma parse_written:
  assumes "filter is_lt now = []" "list_all (\<lambda>e. no_separator True (block_text e)) es"
  shows "parseMemoryMd t (write_entries now es) = List.map_filter (reparse t) es"
proof -
  have "no_separator True (header_text ''Last updated: '' now)"
    using assms(1) by (intro header_text_no_separator) (simp_all add: is_lt_def)
  then have "blocks_of (write_entries now es)
      = (if trim (header_text ''Last updated: '' now) = [] then [] else [trim (header_text ''Last updated: '' now)])
        @ map (\<lambda>e. trim (block_text e)) es"
    unfolding write_entries_split using assms(2)
    by (simp only: blocks_of_block blocks_of_join_plain)
  moreover have "parse_block t (trim (header_text ''Last updated: '' now)) = None"
    by (rule parse_block_header) (simp_all add: is_ws_def)
  ultimately show ?thesis
    by (simp add: parseMemoryMd_def map_filter_append map_filter_reparse List.map_filter_simps)
qed

lemma parse_block_id_clock: "map_option id_e (parse_block t b) = map_option id_e (parse_block t' b)"
  by (simp add: parse_block_def split: prod.splits)

lemma map_filter_ids:
  "(\<And>x. map_option h (f x) = map_option h (g x))
   \<Longrightarrow> map h (List.map_filter f xs) = map h (List.map_filter g xs)"
proof (induction xs)
  case Nil
  then show ?case by (simp add: List.map_filter_simps)
next
  case (Cons x xs)
  have "map_option h (f x) = map_option h (g x)" by (rule Cons.prems)
  then show ?case using Cons by (cases "f x"; cases "g x") (simp_all add: List.map_filter_simps)
qed

lemma parse_ids_clock: "map id_e (parseMemoryMd t raw) = map id_e (parseMemoryMd t' raw)"
  unfolding parseMemoryMd_def by (rule map_filter_ids) (rule parse_block_id_clock)

lemma long_ids_clock: "map id_e (readLongTerm t st) = map id_e (readLongTerm t' st)"
  by (cases "memory_md st") (simp_all add: readLongTerm_def parse_ids_clock[of t _ t'])

lemma daily_ids_clock: "map id_e (readDaily t st) = map id_e (readDaily t' st)"
proof -
  have "map id_e (concat (map (\<lambda>f. parseMemoryMd t (snd f)) fs))
      = map id_e (concat (map (\<lambda>f. parseMemoryMd t' (snd f)) fs))" for fs :: "(string \<times> string) list"
    by (induction fs) (simp_all add: parse_ids_clock[of t _ t'])
  then show ?thesis by (simp add: readDaily_def)
qed

lemma all_ids_clock: "map id_e (readAllEntries t st) = map id_e (readAllEntries t' st)"
  by (simp add: readAllEntries_def long_ids_clock[of t st t'] daily_ids_clock[of t st t'])

lemma closed_appended:
  assumes c: "closed_text raw" and n: "no_separator True (block_text e)"
  shows "closed_text (raw @ serializeEntry e @ [NL])"
proof -
  let ?r = "serializeEntry e @ [NL]"
  have q: "split_sep True ?r = [block_text e @ [NL], [NL]]"
  proof -
    have "?r = block_text e @ NL # ''---'' @ [NL]" by (simp add: serializeEntry_block)
    moreover have "split_sep True (block_text e @ NL # ''---'' @ [NL])
        = (block_text e @ [NL]) # split_sep False [NL]"
      using split_sep_block[OF n, of NL "[NL]"] by simp
    ultimately show ?thesis by simp
  qed
  have lt: "is_lt (last (raw @ ?r))" by simp
  have "last (split_sep True (raw @ ?r)) = [NL]"
  proof (cases "raw = []")
    case True
    then show ?thesis using q by simp
  next
    case False
    then have "is_lt (last raw)" using c by (simp add: closed_text_def)
    then have "split_sep True (raw @ ?r) = glue (split_sep True raw) (split_sep True ?r)"
      using False by (intro split_sep_append)
    then show ?thesis by (simp only: q) (simp add: glue_def)
  qed
  then have "trim (last (split_sep True (raw @ ?r))) = []" by (simp add: trim_def)
  then show ?thesis using lt by (simp add: closed_text_def)
qed

lemma append_file_names:
  "distinct (map fst files) \<Longrightarrow> distinct (map fst (append_file name x files))"
proof (cases "map_of files name")
  case None
  assume "distinct (map fst files)"
  moreover have "name \<notin> fst ` set files" using None by (simp add: map_of_eq_None_iff)
  ultimately show ?thesis using None by (simp add: append_file_def)
next
  case (Some y)
  assume d: "distinct (map fst files)"
  have "map fst (map (\<lambda>f. if fst f = name then (fst f, snd f @ x) else f) files) = map fst files"
    by (induction files) simp_all
  then have "distinct (map fst (map (\<lambda>f. if fst f = name then (fst f, snd f @ x) else f) files))"
    using d by (simp only:)
  then show ?thesis using Some by (simp add: append_file_def)
qed

lemma append_file_parse_text:
  assumes "distinct (map fst files)" "endsWith name ''.md''"
    and "case map_of files name of None \<Rightarrow> True | Some raw \<Rightarrow> closed_text raw"
  shows "mset (concat (map (\<lambda>f. parseMemoryMd t (snd f)) (md_files (append_file name x files))))
      = mset (concat (map (\<lambda>f. parseMemoryMd t (snd f)) (md_files files))) + mset (parseMemoryMd t x)"
proof (cases "map_of files name")
  case None
  then show ?thesis using assms(2) by (simp add: append_file_def md_files_def)
next
  case (Some raw)
  then have c: "closed_text raw" using assms(3) by simp
  let ?u = "\<lambda>f. if fst f = name then (fst f, snd f @ x) else f"
  let ?g = "\<lambda>f. parseMemoryMd t (snd f)"
  have "distinct (map fst fs) \<Longrightarrow> map_of fs name = Some raw \<Longrightarrow>
      mset (concat (map ?g (md_files (map ?u fs))))
        = mset (concat (map ?g (md_files fs))) + mset (parseMemoryMd t x)"
    for fs
  proof (induction fs)
    case Nil
    then show ?case by simp
  next
    case (Cons f fs)
    show ?case
    proof (cases "fst f = name")
      case True
      then have raw: "snd f = raw" using Cons.prems(2) by (cases f) simp
      have "name \<notin> fst ` set fs" using Cons.prems(1) True by auto
      then have "map ?u fs = fs" by (intro map_idI) auto
      moreover have "parseMemoryMd t (raw @ x) = parseMemoryMd t raw @ parseMemoryMd t x"
        using c by (rule parse_append_closed)
      ultimately show ?thesis using True raw assms(2) by (simp add: md_files_def)
    next
      case False
      then have "map_of fs name = Some raw" using Cons.prems(2) by (cases f) (simp split: if_splits)
      then have "mset (concat (map ?g (md_files (map ?u fs))))
          = mset (concat (map ?g (md_files fs))) + mset (parseMemoryMd t x)"
        using Cons.IH Cons.prems(1) by simp
      then show ?thesis using False by (simp add: md_files_def)
    qed
  qed
  then show ?thesis using assms(1) Some by (simp add: append_file_def)
qed

lemma append_file_closed:
  assumes "list_all (\<lambda>f. closed_text (snd f)) files" "no_separator True (block_text e)"
  shows "list_all (\<lambda>f. closed_text (snd f)) (append_file name (serializeEntry e @ [NL]) files)"
proof -
  have new: "closed_text (serializeEntry e @ [NL])"
    using closed_appended[OF closed_text_Nil assms(2)] by simp
  show ?thesis
  proof (cases "map_of files name")
    case None
    then show ?thesis using assms(1) new by (simp add: append_file_def)
  next
    case (Some y)
    then show ?thesis
      using assms by (auto simp: append_file_def list_all_iff closed_appended)
  qed
qed

lemma lt_free_no_NL: "filter is_lt s = [] \<Longrightarrow> NL \<notin> set s"
  by (auto simp: filter_empty_conv)

lemma split_six_lines:
  assumes "NL \<notin> set a1" "NL \<notin> set a2" "NL \<notin> set a3" "NL \<notin> set a4" "NL \<notin> set a5" "NL \<notin> set a6"
  shows "split_on [NL] (a1 @ NL # a2 @ NL # a3 @ NL # a4 @ NL # a5 @ NL # a6 @ NL # r)
      = a1 # a2 # a3 # a4 # a5 # a6 # split_on [NL] r"
    and "split_on [NL] (a1 @ NL # a2 @ NL # a3 @ NL # a4 @ NL # a5 @ NL # a6)
      = [a1, a2, a3, a4, a5, a6]"
  by (simp_all only: split_on_NL_append[OF assms(1)] split_on_NL_append[OF assms(2)]
      split_on_NL_append[OF assms(3)] split_on_NL_append[OF assms(4)] split_on_NL_append[OF assms(5)]
      split_on_NL_append[OF assms(6)] split_on_NL_single[OF assms(6)])

lemma scan_meta_value:
  assumes k: "k \<noteq> []" "list_all is_key_char k" and v: "v \<noteq> []" "filter is_lt v = []"
  shows "scan_lines False ((k @ '': '' @ v) # rest) m cl = scan_lines False rest (m(k \<mapsto> trim v)) cl"
proof -
  let ?l = "k @ '': '' @ v"
  have nk: "\<not> is_key_char (CHR '':'')" by (simp add: is_key_char_def)
  have tw: "takeWhile is_key_char ?l = k"
    using k(2) nk by (simp add: takeWhile_append2 list_all_iff)
  have dw: "dropWhile is_key_char ?l = '': '' @ v"
    using k(2) nk by (simp add: dropWhile_append2 list_all_iff)
  have ml: "meta_line ?l"
    unfolding meta_line_def tw dw using k(1) v by simp
  have "hd ?l = hd k" using k(1) by simp
  moreover have "is_key_char (hd k)" using k by (cases k) simp_all
  ultimately have "hd ?l \<noteq> CHR ''<''" by (auto simp: is_key_char_def)
  moreover have "?l \<noteq> []" using k(1) by simp
  ultimately have nc: "\<not> html_comment ?l"
    by (cases ?l) (auto simp: html_comment_def startsWith_def)
  have "CHR '':'' \<notin> set k" using k(2) nk by (auto simp: list_all_iff)
  then have sp: "split_on '': '' ?l = k # split_on '': '' v"
    using split_on_append[of "'': ''" k v] by simp
  have j: "join '': '' (split_on '': '' v) = v" by (rule join_split_on) simp
  have "trim k = k" using k by (simp add: key_tight trim_tight)
  then show ?thesis using ml nc sp j by simp
qed

lemma scan_tags_value: "v \<noteq> [] \<Longrightarrow> filter is_lt v = [] \<Longrightarrow>
  scan_lines False ((''tags: '' @ v) # rest) m cl = scan_lines False rest (m(''tags'' \<mapsto> trim v)) cl"
  using scan_meta_value[of "''tags''" v rest m cl] by (simp add: is_key_char_def)

lemma scan_no_tags:
  "scan_lines False (''tags: '' # rest) m cl = (m, cl @ ''tags: '' # rest)"
  by (simp add: scan_content html_comment_def startsWith_def meta_line_def is_key_char_def)

lemma trim_block_content:
  assumes "trim (content e) \<noteq> []"
  shows "trim (block_text e) = meta_text e @ NL # NL # rtrim (content e)"
proof -
  have "\<not> is_ws (CHR ''i'')" by (simp add: is_ws_def)
  then have "dropWhile is_ws (block_text e) = block_text e"
    by (simp add: block_text_def meta_text_def)
  then have "trim (block_text e) = rtrim (block_text e)" by (simp add: trim_rtrim)
  also have "\<dots> = rtrim ((meta_text e @ [NL, NL]) @ (content e @ [NL]))"
    by (simp add: block_text_def)
  also have "\<dots> = (meta_text e @ [NL, NL]) @ rtrim (content e @ [NL])"
  proof (rule rtrim_append_keep)
    have "rtrim (content e @ [NL]) = rtrim (content e)" by (rule rtrim_snoc_ws) simp
    with assms show "rtrim (content e @ [NL]) \<noteq> []" by (simp add: rtrim_nonempty)
  qed
  also have "rtrim (content e @ [NL]) = rtrim (content e)" by (rule rtrim_snoc_ws) simp
  finally show ?thesis by simp
qed

lemma trim_block_blank:
  assumes "content e = []" "field_ok (source e)"
  shows "trim (block_text e) = meta_text e"
proof -
  have "\<not> is_ws (CHR ''i'')" by (simp add: is_ws_def)
  then have "dropWhile is_ws (block_text e) = block_text e"
    by (simp add: block_text_def meta_text_def)
  then have "trim (block_text e) = rtrim (block_text e)" by (simp add: trim_rtrim)
  also have "\<dots> = rtrim (meta_text e @ [NL, NL, NL])" using assms(1) by (simp add: block_text_def)
  also have "\<dots> = rtrim (meta_text e)" by (rule rtrim_append_ws) simp
  also have "\<dots> = meta_text e"
  proof (rule rtrim_tight)
    show "meta_text e \<noteq> []" by (simp add: meta_text_def)
    have "source e \<noteq> []" "\<not> is_ws (last (source e))"
      using assms(2) by (simp_all add: field_ok_def tight_def)
    then show "\<not> is_ws (last (meta_text e))" by (simp add: meta_text_def)
  qed
  finally show ?thesis .
qed

lemma plain_content_trim: "plain_entry e \<Longrightarrow> content e \<noteq> [] \<Longrightarrow>
  trim (content e) = content e \<and> rtrim (content e) = content e \<and> trim (content e) \<noteq> []"
  by (auto simp: plain_entry_def trim_tight rtrim_tight tight_def)

lemma meta_text_lines:
  "meta_text e = (''id: '' @ id_e e) @ NL # (''type: '' @ type_e e) @ NL
     # (''tags: '' @ join '', '' (tags e)) @ NL # (''createdAt: '' @ createdAt e) @ NL
     # (''updatedAt: '' @ updatedAt e) @ NL # (''source: '' @ source e)"
  by (simp add: meta_text_def)

lemma plain_lines_no_NL:
  assumes "plain_entry e"
  shows "NL \<notin> set (''id: '' @ id_e e)" "NL \<notin> set (''type: '' @ type_e e)"
    "NL \<notin> set (''tags: '' @ join '', '' (tags e))" "NL \<notin> set (''createdAt: '' @ createdAt e)"
    "NL \<notin> set (''updatedAt: '' @ updatedAt e)" "NL \<notin> set (''source: '' @ source e)"
  using plain_fields_lt_free[OF assms] by (simp_all only: lt_free_no_NL key_line_lt_free not_False_eq_True)

text \<open>The lines of the block of a plain entry.\<close>

lemma plain_block_lines_blank:
  assumes "plain_entry e" "content e = []"
  shows "split_on [NL] (trim (block_text e)) =
     [''id: '' @ id_e e, ''type: '' @ type_e e, ''tags: '' @ join '', '' (tags e),
      ''createdAt: '' @ createdAt e, ''updatedAt: '' @ updatedAt e, ''source: '' @ source e]"
proof -
  have "field_ok (source e)" using assms(1) by (simp add: plain_entry_def)
  then have "trim (block_text e) = meta_text e" using assms(2) by (intro trim_block_blank)
  then show ?thesis
    by (simp only: meta_text_lines split_six_lines(2)[OF plain_lines_no_NL[OF assms(1)]])
qed

lemma plain_block_lines_content:
  assumes "plain_entry e" "content e \<noteq> []"
  shows "split_on [NL] (trim (block_text e)) =
     (''id: '' @ id_e e) # (''type: '' @ type_e e) # (''tags: '' @ join '', '' (tags e))
     # (''createdAt: '' @ createdAt e) # (''updatedAt: '' @ updatedAt e) # (''source: '' @ source e)
     # [] # split_on [NL] (content e)"
proof -
  have c: "trim (content e) \<noteq> []" "rtrim (content e) = content e"
    using plain_content_trim[OF assms] by blast+
  have "trim (block_text e) = meta_text e @ NL # NL # content e"
    using trim_block_content[OF c(1)] c(2) by simp
  then have "trim (block_text e) = (''id: '' @ id_e e) @ NL # (''type: '' @ type_e e) @ NL
     # (''tags: '' @ join '', '' (tags e)) @ NL # (''createdAt: '' @ createdAt e) @ NL
     # (''updatedAt: '' @ updatedAt e) @ NL # (''source: '' @ source e) @ NL # (NL # content e)"
    by (simp add: meta_text_def)
  moreover have "split_on [NL] (NL # content e) = [] # split_on [NL] (content e)" by simp
  ultimately show ?thesis
    by (simp only: split_six_lines(1)[OF plain_lines_no_NL[OF assms(1)]])
qed

text \<open>With a tags line that is metadata, the block gives the entry back, its tags
  split at the commas; unless it has no content: then the parser drops it.\<close>

lemma scan_plain_tags:
  assumes p: "plain_entry e" and j: "join '', '' (tags e) \<noteq> []"
  shows "scan_lines False
     ((''id: '' @ id_e e) # (''type: '' @ type_e e) # (''tags: '' @ join '', '' (tags e))
      # (''createdAt: '' @ createdAt e) # (''updatedAt: '' @ updatedAt e) # (''source: '' @ source e)
      # ls) Map.empty [] =
   scan_lines False ls
     (Map.empty(''id'' \<mapsto> id_e e, ''type'' \<mapsto> type_e e, ''tags'' \<mapsto> trim (join '', '' (tags e)),
      ''createdAt'' \<mapsto> createdAt e, ''updatedAt'' \<mapsto> updatedAt e, ''source'' \<mapsto> source e)) []"
proof -
  have f: "field_ok (id_e e)" "field_ok (type_e e)"
    "field_ok (createdAt e)" "field_ok (updatedAt e)" "field_ok (source e)"
    using p by (simp_all add: plain_entry_def)
  have t: "filter is_lt (join '', '' (tags e)) = []" using p by (rule plain_fields_lt_free)
  show ?thesis
    by (simp only: scan_id[OF f(1)] scan_type[OF f(2)] scan_tags_value[OF j t]
        scan_createdAt[OF f(3)] scan_updatedAt[OF f(4)] scan_source[OF f(5)])
qed

lemma reparse_tags_blank:
  assumes p: "plain_entry e" and j: "join '', '' (tags e) \<noteq> []" and c: "content e = []"
  shows "reparse t e = None"
proof -
  have "scan_lines False (split_on [NL] (trim (block_text e))) Map.empty [] =
     (Map.empty(''id'' \<mapsto> id_e e, ''type'' \<mapsto> type_e e, ''tags'' \<mapsto> trim (join '', '' (tags e)),
      ''createdAt'' \<mapsto> createdAt e, ''updatedAt'' \<mapsto> updatedAt e, ''source'' \<mapsto> source e), [])"
    by (simp only: plain_block_lines_blank[OF p c] scan_plain_tags[OF p j] scan_lines.simps(1))
  then show ?thesis by (simp add: reparse_def parse_block_def trim_def)
qed

lemma reparse_tags_content:
  assumes p: "plain_entry e" and j: "join '', '' (tags e) \<noteq> []" and c: "content e \<noteq> []"
  shows "reparse t e = Some (e\<lparr>tags := split_tags (join '', '' (tags e))\<rparr>)"
proof -
  let ?c = "content e"
  have sc: "scan_lines False (split_on [NL] (trim (block_text e))) Map.empty [] =
     (Map.empty(''id'' \<mapsto> id_e e, ''type'' \<mapsto> type_e e, ''tags'' \<mapsto> trim (join '', '' (tags e)),
      ''createdAt'' \<mapsto> createdAt e, ''updatedAt'' \<mapsto> updatedAt e, ''source'' \<mapsto> source e),
      [] # split_on [NL] ?c)"
    by (simp only: plain_block_lines_content[OF p c] scan_plain_tags[OF p j] scan_blank append_Nil)
  have tc: "trim ?c = ?c" "trim ?c \<noteq> []" using plain_content_trim[OF p c] by blast+
  have jn: "join [NL] ([] # split_on [NL] ?c) = NL # ?c"
    by (simp add: join_nil_cons join_split_on)
  have tj: "trim (NL # ?c) = ?c" using tc by (simp add: trim_cons_ws)
  obtain x where x: "x \<in> set ?c" "\<not> is_ws x" using tc(2) by (auto simp: trim_nonempty_set)
  then have "x \<noteq> NL" by auto
  with x have "x \<in> set (concat ([] # split_on [NL] ?c))" by (simp add: concat_split_on_char)
  with x(2) have cc: "trim (concat ([] # split_on [NL] ?c)) \<noteq> []"
    by (auto simp only: trim_nonempty_set)
  have idne: "id_e e \<noteq> []" using p by (simp add: plain_entry_def field_ok_nonempty)
  show ?thesis
    unfolding reparse_def parse_block_def sc
    using cc idne by (simp add: jn tj nullish_def split_tags_def del: join.simps concat.simps)
qed

lemma trim_no_tags_block:
  assumes p: "plain_entry e" and j: "join '', '' (tags e) = []"
  shows "trim (block_text e) = (''id: '' @ id_e e) @ NL # (''type: '' @ type_e e) @ NL # kept_text e"
proof (cases "content e = []")
  case True
  have "field_ok (source e)" using p by (simp add: plain_entry_def)
  then have "trim (block_text e) = meta_text e" using True by (intro trim_block_blank)
  then show ?thesis using True j by (simp add: meta_text_def kept_text_def)
next
  case False
  then have c: "trim (content e) \<noteq> []" "rtrim (content e) = content e"
    using plain_content_trim[OF p] by blast+
  have "trim (block_text e) = meta_text e @ NL # NL # content e"
    using trim_block_content[OF c(1)] c(2) by simp
  then show ?thesis using False j by (simp add: meta_text_def kept_text_def)
qed

lemma kept_text_tight: "plain_entry e \<Longrightarrow> tight (kept_text e)"
  by (auto simp: kept_text_def tight_def plain_entry_def field_ok_def is_ws_def)

lemma kept_text_no_separator:
  assumes "plain_entry e"
  shows "no_separator True (kept_text e)"
proof -
  note f = plain_fields_lt_free[OF assms]
  have c: "no_separator True (content e)" using assms by (simp add: plain_entry_def)
  have 6: "no_separator True ((''source: '' @ source e) @ (if content e = [] then [] else NL # NL # content e))"
  proof (cases "content e = []")
    case True
    have "no_separator True (''source: '' @ source e)"
      by (rule no_separator_lt_free) (simp_all only: key_line_lt_free f key_line_no_sep_here not_False_eq_True)
    then show ?thesis using True by simp
  next
    case False
    have "no_separator True (NL # content e)" using c by simp
    then have "no_separator True ((''source: '' @ source e) @ NL # NL # content e)"
      by (intro no_separator_line) (simp_all only: key_line_lt_free f key_line_no_sep_here not_False_eq_True)
    then show ?thesis using False by (simp only: if_False)
  qed
  have 5: "no_separator True ((''updatedAt: '' @ updatedAt e) @ NL
      # (''source: '' @ source e) @ (if content e = [] then [] else NL # NL # content e))"
    by (rule no_separator_line) (simp_all only: key_line_lt_free f key_line_no_sep_here 6 not_False_eq_True)
  have 4: "no_separator True ((''createdAt: '' @ createdAt e) @ NL # (''updatedAt: '' @ updatedAt e) @ NL
      # (''source: '' @ source e) @ (if content e = [] then [] else NL # NL # content e))"
    by (rule no_separator_line) (simp_all only: key_line_lt_free f key_line_no_sep_here 5 not_False_eq_True)
  have t1: "filter is_lt ''tags: '' = []" by (simp add: is_lt_def)
  have t2: "\<not> sep_here ''tags: ''" by (simp add: sep_here_def)
  have "no_separator True (''tags: '' @ NL # (''createdAt: '' @ createdAt e) @ NL # (''updatedAt: '' @ updatedAt e) @ NL
      # (''source: '' @ source e) @ (if content e = [] then [] else NL # NL # content e))"
    using t1 t2 4 by (rule no_separator_line)
  then show ?thesis by (simp only: kept_text_def)
qed

text \<open>Without tags the line \<open>tags: \<close> is no metadata: the content starts there, and
  the timestamps and the source of the block are lost. The id and the type stay.\<close>

lemma reparse_no_tags:
  assumes p: "plain_entry e" and j: "join '', '' (tags e) = []"
  shows "reparse t e = Some \<lparr> id_e = id_e e, type_e = type_e e, content = kept_text e, tags = [],
     createdAt = t, updatedAt = t, source = ''agent'' \<rparr>"
proof -
  let ?C = "kept_text e"
  obtain C' where C: "?C = ''tags: '' @ NL # C'" by (simp add: kept_text_def)
  have f: "field_ok (id_e e)" "field_ok (type_e e)" using p by (simp_all add: plain_entry_def)
  have n: "NL \<notin> set (''id: '' @ id_e e)" "NL \<notin> set (''type: '' @ type_e e)"
    using p by (rule plain_lines_no_NL)+
  have "NL \<notin> set ''tags: ''" by (simp add: NL_def)
  then have sC: "split_on [NL] ?C = ''tags: '' # split_on [NL] C'"
    unfolding C by (rule split_on_NL_append)
  have lines: "split_on [NL] (trim (block_text e))
      = (''id: '' @ id_e e) # (''type: '' @ type_e e) # split_on [NL] ?C"
    by (simp only: trim_no_tags_block[OF p j] split_on_NL_append[OF n(1)] split_on_NL_append[OF n(2)])
  have sc: "scan_lines False (split_on [NL] (trim (block_text e))) Map.empty []
      = (Map.empty(''id'' \<mapsto> id_e e, ''type'' \<mapsto> type_e e), split_on [NL] ?C)"
    by (simp only: lines sC scan_id[OF f(1)] scan_type[OF f(2)] scan_no_tags append_Nil)
  have jn: "join [NL] (split_on [NL] ?C) = ?C" by (rule join_split_on) simp
  have tr: "trim ?C = ?C" using kept_text_tight[OF p] by (rule trim_tight)
  have "CHR ''t'' \<in> set (concat (split_on [NL] ?C))"
    by (simp add: concat_split_on_char C NL_def)
  moreover have "\<not> is_ws (CHR ''t'')" by (simp add: is_ws_def)
  ultimately have cc: "trim (concat (split_on [NL] ?C)) \<noteq> []"
    unfolding trim_nonempty_set by blast
  have idne: "id_e e \<noteq> []" using f(1) by (rule field_ok_nonempty)
  show ?thesis
    unfolding reparse_def parse_block_def sc
    using cc idne by (simp add: jn tr nullish_def)
qed

lemma set_trim_subset: "set (trim s) \<subseteq> set s"
proof -
  have "set (trim s) \<subseteq> set (rev (dropWhile is_ws s))"
    unfolding trim_def by (simp only: set_rev) (auto dest: set_dropWhileD)
  then show ?thesis by (auto dest: set_dropWhileD)
qed

lemma set_cons_first: "x \<in> set (cons_first c ps) \<Longrightarrow> ps \<noteq> [] \<Longrightarrow> set x \<subseteq> insert c (\<Union> (set ` set ps))"
  by (cases ps) auto

lemma split_on_pieces: "x \<in> set (split_on sep s) \<Longrightarrow> set x \<subseteq> set s"
proof (induction sep s arbitrary: x rule: split_on.induct)
  case (1 sep)
  then show ?case by simp
next
  case (2 sep c cs)
  show ?case
  proof (cases "sep \<noteq> [] \<and> take (length sep) (c # cs) = sep")
    case True
    then have "x = [] \<or> x \<in> set (split_on sep (drop (length sep) (c # cs)))"
      using "2.prems" by auto
    then show ?thesis
    proof
      assume "x = []"
      then show ?thesis by simp
    next
      assume "x \<in> set (split_on sep (drop (length sep) (c # cs)))"
      then have "set x \<subseteq> set (drop (length sep) (c # cs))" using "2.IH"(1) True by blast
      then show ?thesis using set_drop_subset[of "length sep" "c # cs"] by blast
    qed
  next
    case False
    then have x: "x \<in> set (cons_first c (split_on sep cs))" using "2.prems" by auto
    have "set x \<subseteq> insert c (\<Union> (set ` set (split_on sep cs)))"
      using x by (rule set_cons_first) simp
    moreover have "\<Union> (set ` set (split_on sep cs)) \<subseteq> set cs"
      using "2.IH"(2) False by blast
    ultimately show ?thesis by auto
  qed
qed

lemma split_tags_lt_free:
  assumes "filter is_lt v = []"
  shows "list_all (\<lambda>t. filter is_lt t = []) (split_tags v)"
proof -
  have "set x \<subseteq> set v" if "x \<in> set (split_on '','' (trim v))" for x
    using split_on_pieces[OF that] set_trim_subset[of v] by blast
  then have "set (trim x) \<subseteq> set v" if "x \<in> set (split_on '','' (trim v))" for x
    using that set_trim_subset[of x] by blast
  then have "\<forall>y\<in>set (split_tags v). set y \<subseteq> set v" by (auto simp: split_tags_def)
  moreover have "\<forall>c\<in>set v. \<not> is_lt c" using assms by (simp add: filter_empty_conv)
  ultimately show ?thesis by (auto simp: list_all_iff filter_empty_conv)
qed

text \<open>What the parser makes of the block of a plain entry is a plain entry with the
  same id.\<close>

lemma reparse_plain:
  assumes p: "plain_entry e" and t: "field_ok t" and r: "reparse t e = Some x"
  shows "id_e x = id_e e \<and> plain_entry x"
proof (cases "join '', '' (tags e) = []")
  case True
  have "field_ok ''agent''" by (simp add: field_ok_def tight_def is_ws_def is_lt_def)
  then show ?thesis
    using r p t kept_text_tight[OF p] kept_text_no_separator[OF p]
    by (auto simp: reparse_no_tags[OF p True] plain_entry_def)
next
  case False
  show ?thesis
  proof (cases "content e = []")
    case True
    then show ?thesis using r reparse_tags_blank[OF p False] by simp
  next
    case c: False
    have "list_all (\<lambda>t. filter is_lt t = []) (split_tags (join '', '' (tags e)))"
      using plain_fields_lt_free(3)[OF p] by (rule split_tags_lt_free)
    then show ?thesis
      using r p by (auto simp: reparse_tags_content[OF p False c] plain_entry_def)
  qed
qed

lemma reparse_none_clock: "(reparse t e = None) = (reparse t' e = None)"
  using parse_block_id_clock[of t "trim (block_text e)" t'] by (auto simp: reparse_def)

lemma reparse_id:
  assumes p: "plain_entry e" and r: "reparse t e = Some x"
  shows "id_e x = id_e e"
proof (cases "join '', '' (tags e) = []")
  case True
  then show ?thesis using r by (auto simp: reparse_no_tags[OF p True])
next
  case False
  show ?thesis
  proof (cases "content e = []")
    case True
    then show ?thesis using r reparse_tags_blank[OF p False] by simp
  next
    case c: False
    then show ?thesis using r by (auto simp: reparse_tags_content[OF p False c])
  qed
qed

lemma map_filter_reparse_plain:
  "list_all plain_entry es \<Longrightarrow> field_ok t \<Longrightarrow> list_all plain_entry (List.map_filter (reparse t) es)"
proof (induction es)
  case Nil
  then show ?case by (simp add: List.map_filter_simps)
next
  case (Cons e es)
  then show ?case
    using reparse_plain[of e t] by (cases "reparse t e") (simp_all add: List.map_filter_simps)
qed

lemma map_filter_reparse_ids:
  "list_all plain_entry es \<Longrightarrow>
   map id_e (List.map_filter (reparse t) es) = map id_e (filter (\<lambda>e. reparse t e \<noteq> None) es)"
proof (induction es)
  case Nil
  then show ?case by (simp add: List.map_filter_simps)
next
  case (Cons e es)
  then show ?case
    using reparse_id[of e t] by (cases "reparse t e") (simp_all add: List.map_filter_simps)
qed

lemma plain_list_no_separator:
  "list_all plain_entry es \<Longrightarrow> list_all (\<lambda>e. no_separator True (block_text e)) es"
  by (simp add: list_all_iff plain_block_no_separator)

text \<open>The entries read from a file that was written from plain entries.\<close>

lemma written_plain:
  assumes "field_ok now" "list_all plain_entry es"
  shows "field_ok t \<Longrightarrow> list_all plain_entry (parseMemoryMd t (write_entries now es))"
    and "distinct (map id_e es) \<Longrightarrow> distinct (map id_e (parseMemoryMd t (write_entries now es)))"
    and "set (map id_e (parseMemoryMd t (write_entries now es))) \<subseteq> set (map id_e es)"
proof -
  have w: "parseMemoryMd t (write_entries now es) = List.map_filter (reparse t) es"
    using assms by (intro parse_written plain_list_no_separator) (simp_all add: field_ok_def)
  show "field_ok t \<Longrightarrow> list_all plain_entry (parseMemoryMd t (write_entries now es))"
    using assms(2) by (simp add: w map_filter_reparse_plain)
  show "distinct (map id_e es) \<Longrightarrow> distinct (map id_e (parseMemoryMd t (write_entries now es)))"
    using assms(2) by (simp add: w map_filter_reparse_ids distinct_map_filter)
  show "set (map id_e (parseMemoryMd t (write_entries now es))) \<subseteq> set (map id_e es)"
    using assms(2) by (auto simp: w map_filter_reparse_ids)
qed

lemma serialized_plain:
  assumes "plain_entry e"
  shows "field_ok t \<Longrightarrow> list_all plain_entry (parseMemoryMd t (serializeEntry e @ [NL]))"
    and "set (map id_e (parseMemoryMd t (serializeEntry e @ [NL]))) \<subseteq> {id_e e}"
    and "length (parseMemoryMd t (serializeEntry e @ [NL])) \<le> 1"
proof -
  have s: "parseMemoryMd t (serializeEntry e @ [NL]) = (case reparse t e of None \<Rightarrow> [] | Some x \<Rightarrow> [x])"
    using assms by (intro parse_serialized plain_block_no_separator)
  show "field_ok t \<Longrightarrow> list_all plain_entry (parseMemoryMd t (serializeEntry e @ [NL]))"
    using reparse_plain[OF assms, of t] by (auto simp: s split: option.splits)
  show "set (map id_e (parseMemoryMd t (serializeEntry e @ [NL]))) \<subseteq> {id_e e}"
    using reparse_id[OF assms, of t] by (auto simp: s split: option.splits)
  show "length (parseMemoryMd t (serializeEntry e @ [NL])) \<le> 1"
    by (simp add: s split: option.splits)
qed

subsection \<open>Plain stores\<close>

lemma plain_store_fresh: "field_ok now \<Longrightarrow> plain_store (fresh now)"
  by (simp add: plain_store_def fresh_def init_def empty_store_def rebuildIndex_def
      readAllEntries_def readLongTerm_def readDaily_def md_files_def
      parseMemoryMd_init_header field_ok_def)

lemma plain_store_read:
  assumes "plain_store st" "field_ok t"
  shows "list_all plain_entry (readLongTerm t st)" "list_all plain_entry (readDaily t st)"
    "list_all plain_entry (readAllEntries t st)"
  using assms by (simp_all add: plain_store_def readAllEntries_def)

lemma plain_store_shortTerm [simp]: "plain_store (st\<lparr>shortTerm := w\<rparr>) = plain_store st"
  by (simp add: plain_store_def readAllEntries_def readLongTerm_def readDaily_def)

lemma plain_store_fts [simp]: "plain_store (st\<lparr>memory_fts := w\<rparr>) = plain_store st"
  by (simp add: plain_store_def readAllEntries_def readLongTerm_def readDaily_def)

lemma save_plain_now: "save_plain now uid text options \<Longrightarrow> field_ok now"
  by (simp add: save_plain_def)

lemma save_entry_plain:
  assumes s: "plain_store st" and ok: "save_plain now uid text options"
  shows "plain_entry (save_entry now uid text options st)"
proof -
  let ?e = "save_entry now uid text options st"
  have now: "field_ok now" using ok by (rule save_plain_now)
  have "field_ok (createdAt ?e)"
    using save_entry_createdAt[of now uid "text" options st]
  proof
    assume "createdAt ?e = now"
    then show ?thesis using now by simp
  next
    assume "\<exists>x\<in>set (readAllEntries now st). createdAt ?e = createdAt x"
    then obtain x where x: "x \<in> set (readAllEntries now st)" "createdAt ?e = createdAt x" by blast
    have "list_all plain_entry (readAllEntries now st)" using s now by (rule plain_store_read)
    with x(1) have "plain_entry x" by (simp add: list_all_iff)
    with x(2) show ?thesis by (simp add: plain_entry_def)
  qed
  moreover have "list_all (\<lambda>t. filter is_lt t = []) (tags ?e)"
    using ok by (auto simp: save_plain_def save_entry_def split: option.splits)
  moreover have "trim text = [] \<or> tight (trim text)" using trim_tight_result[of "text"] by blast
  ultimately show ?thesis
    using ok by (simp add: plain_entry_def save_plain_def)
qed

lemma parse_nil [simp]: "parseMemoryMd t [] = []"
  by (simp add: parseMemoryMd_def List.map_filter_simps)

lemma upsert_source: "parseMemoryMd now (case memory_md st of None \<Rightarrow> [] | Some raw \<Rightarrow> raw) = readLongTerm now st"
  by (simp add: readLongTerm_def split: option.splits)

lemma upsert_entries_plain:
  "list_all plain_entry L \<Longrightarrow> plain_entry e \<Longrightarrow> list_all plain_entry (upsert_entries M e L)"
  using upsert_entries_set[of M e L] by (auto simp: list_all_iff)

text \<open>Writing the long-term file from plain entries with distinct ids.\<close>

lemma plain_store_write:
  assumes s: "plain_store st" and now: "field_ok now"
    and p: "list_all plain_entry es" and d: "distinct (map id_e es)"
  shows "plain_store (st\<lparr>memory_md := Some (write_entries now es)\<rparr>)"
proof -
  let ?st = "st\<lparr>memory_md := Some (write_entries now es)\<rparr>"
  have lt: "\<And>t. readLongTerm t ?st = parseMemoryMd t (write_entries now es)"
    by (simp add: readLongTerm_def)
  have dl: "\<And>t. readDaily t ?st = readDaily t st" by (simp add: readDaily_def)
  have "\<And>t. field_ok t \<Longrightarrow> list_all plain_entry (readAllEntries t ?st)"
    using written_plain(1)[OF now p] plain_store_read(2)[OF s]
    by (simp add: readAllEntries_def lt dl)
  moreover have "\<And>t. distinct (map id_e (readLongTerm t ?st))"
    using written_plain(2)[OF now p d] by (simp add: lt)
  ultimately show ?thesis using s by (simp add: plain_store_def)
qed

lemma save_fact_store:
  assumes "nullish (opt_type options) ''fact'' \<noteq> ''log''"
  shows "snd (save M now uid text options st) =
     st\<lparr>memory_md := Some (write_entries now
            (upsert_entries M (save_entry now uid text options st) (readLongTerm now st))),
        memory_fts := index_upsert (save_entry now uid text options st) (memory_fts st)\<rparr>"
  using assms by (simp add: save_def Let_def upsertLongTerm_def upsert_source)

lemma save_log_store:
  assumes "nullish (opt_type options) ''fact'' = ''log''"
  shows "snd (save M now uid text options st) =
     st\<lparr>daily_dir := append_file (today now @ ''.md'')
            (serializeEntry (save_entry now uid text options st) @ [NL]) (daily_dir st),
        memory_fts := index_upsert (save_entry now uid text options st) (memory_fts st)\<rparr>"
  using assms by (simp add: save_def Let_def appendDailyLog_def)

lemma plain_store_save_fact:
  assumes s: "plain_store st" and ok: "save_plain now uid text options"
    and t: "nullish (opt_type options) ''fact'' \<noteq> ''log''"
  shows "plain_store (snd (save M now uid text options st))"
proof -
  let ?e = "save_entry now uid text options st"
  have now: "field_ok now" using ok by (rule save_plain_now)
  have e: "plain_entry ?e" using s ok by (rule save_entry_plain)
  have "list_all plain_entry (readLongTerm now st)" using s now by (rule plain_store_read)
  then have p: "list_all plain_entry (upsert_entries M ?e (readLongTerm now st))"
    using e by (rule upsert_entries_plain)
  have "distinct (map id_e (readLongTerm now st))" using s by (simp add: plain_store_def)
  then have d: "distinct (map id_e (upsert_entries M ?e (readLongTerm now st)))"
    by (rule upsert_entries_distinct)
  show ?thesis
    using plain_store_write[OF s now p d] by (simp add: save_fact_store[OF t])
qed

lemma closed_file:
  "list_all (\<lambda>f. closed_text (snd f)) files
   \<Longrightarrow> case map_of files name of None \<Rightarrow> True | Some raw \<Rightarrow> closed_text raw"
proof (cases "map_of files name")
  case None
  then show ?thesis by simp
next
  case (Some raw)
  assume a: "list_all (\<lambda>f. closed_text (snd f)) files"
  have "(name, raw) \<in> set files" using Some by (rule map_of_SomeD)
  then have "closed_text (snd (name, raw))" using a unfolding list_all_iff by blast
  then show ?thesis using Some by simp
qed

text \<open>Appending the block of a plain entry to the log of the day.\<close>

lemma appended_daily:
  assumes s: "plain_store st"
  shows "mset (readDaily t (st\<lparr>daily_dir := append_file (today now @ ''.md'') x (daily_dir st)\<rparr>))
     = mset (readDaily t st) + mset (parseMemoryMd t x)"
proof -
  have d: "distinct (map fst (daily_dir st))" and c: "list_all (\<lambda>f. closed_text (snd f)) (daily_dir st)"
    using s by (simp_all add: plain_store_def)
  have e: "endsWith (today now @ ''.md'') ''.md''" by simp
  show ?thesis
    using append_file_parse_text[OF d e closed_file[OF c], where t = t and x = x]
    by (simp add: readDaily_def)
qed

lemma plain_store_append:
  assumes s: "plain_store st" and e: "plain_entry e"
  shows "plain_store (st\<lparr>daily_dir := append_file (today now @ ''.md'') (serializeEntry e @ [NL]) (daily_dir st)\<rparr>)"
proof -
  let ?x = "serializeEntry e @ [NL]"
  let ?st = "st\<lparr>daily_dir := append_file (today now @ ''.md'') ?x (daily_dir st)\<rparr>"
  have lt: "\<And>t. readLongTerm t ?st = readLongTerm t st" by (simp add: readLongTerm_def)
  have "list_all plain_entry (readAllEntries t ?st)" if t: "field_ok t" for t
  proof -
    have "set (readDaily t ?st) = set (readDaily t st) \<union> set (parseMemoryMd t ?x)"
      using appended_daily[OF s, of t now ?x] by (metis set_mset_mset set_mset_union)
    then show ?thesis
      using plain_store_read(1,2)[OF s t] serialized_plain(1)[OF e t]
      by (auto simp: readAllEntries_def lt list_all_iff)
  qed
  moreover have "distinct (map fst (daily_dir ?st))"
    using s by (simp add: plain_store_def append_file_names)
  moreover have "list_all (\<lambda>f. closed_text (snd f)) (daily_dir ?st)"
    using s e by (simp add: plain_store_def append_file_closed plain_block_no_separator)
  ultimately show ?thesis using s by (simp add: plain_store_def lt)
qed

lemma plain_store_save_log:
  assumes s: "plain_store st" and ok: "save_plain now uid text options"
    and t: "nullish (opt_type options) ''fact'' = ''log''"
  shows "plain_store (snd (save M now uid text options st))"
  using plain_store_append[OF s save_entry_plain[OF s ok], of now]
  by (simp add: save_log_store[OF t])

lemma plain_store_save:
  "plain_store st \<Longrightarrow> save_plain now uid text options \<Longrightarrow> plain_store (snd (save M now uid text options st))"
  by (cases "nullish (opt_type options) ''fact'' = ''log''")
     (simp_all add: plain_store_save_log plain_store_save_fact)

lemma forget_store:
  "snd (forget now i st) = st \<or>
   snd (forget now i st) = st\<lparr>memory_md := Some (write_entries now
        (filter (\<lambda>e. id_e e \<noteq> i) (readLongTerm now st))),
      memory_fts := filter (\<lambda>r. r_id r \<noteq> i) (memory_fts st)\<rparr>"
  by (auto simp: forget_def readLongTerm_def split: option.splits)

lemma plain_store_forget:
  assumes s: "plain_store st" and now: "field_ok now"
  shows "plain_store (snd (forget now i st))"
proof -
  have "list_all plain_entry (readLongTerm now st)" using s now by (rule plain_store_read)
  then have p: "list_all plain_entry (filter (\<lambda>e. id_e e \<noteq> i) (readLongTerm now st))"
    by (simp add: list_all_iff)
  have "distinct (map id_e (readLongTerm now st))" using s by (simp add: plain_store_def)
  then have d: "distinct (map id_e (filter (\<lambda>e. id_e e \<noteq> i) (readLongTerm now st)))"
    by (rule distinct_map_filter)
  show ?thesis
    using forget_store[of now i st] s plain_store_write[OF s now p d] by auto
qed

lemma plain_store_exec:
  assumes s: "plain_store st" and ok: "op_plain st c"
  shows "plain_store (exec MST M c st)"
proof (cases c)
  case (Save now uid tx opts)
  then show ?thesis using s ok by (simp add: plain_store_save)
next
  case (Forget now i)
  then show ?thesis using s ok by (simp add: plain_store_forget)
next
  case (Flush now uid agentSummary)
  then show ?thesis
    using s ok by (simp add: flushSession_def clearShortTerm_def plain_store_save)
next
  case (Add msg)
  then show ?thesis using s by (simp add: addToShortTerm_def)
qed

lemma plain_store_run:
  "plain_store st \<Longrightarrow> ops_plain MST M cs st \<Longrightarrow> plain_store (run MST M cs st)"
  by (induction cs arbitrary: st) (simp_all add: plain_store_exec)

lemma distinct_parts:
  assumes "distinct (A @ B)" "distinct A'" "set A' \<subseteq> S \<union> set A" "S \<inter> set B = {}"
  shows "distinct (A' @ B)"
  using assms by auto

lemma distinct_add_one:
  assumes m: "mset ys = mset xs + mset zs" and d: "distinct xs" and l: "length zs \<le> 1"
    and n: "set zs \<inter> set xs = {}"
  shows "distinct ys"
proof -
  have "distinct zs" using l by (cases zs) auto
  then have "distinct (zs @ xs)" using d n by auto
  moreover have "mset ys = mset (zs @ xs)" using m by simp
  ultimately show ?thesis using mset_eq_imp_distinct_iff by blast
qed

text \<open>A save to the long-term file brings no id but the one saved; \<open>forget\<close> brings
  none.\<close>

lemma written_ids:
  assumes s: "plain_store st" and now: "field_ok now"
    and p: "list_all plain_entry es"
    and i: "set (map id_e es) \<subseteq> S \<union> set (map id_e (readLongTerm now st))"
    and a: "S \<inter> set (map id_e (readDaily t st)) = {}"
    and ps: "plain_store (st\<lparr>memory_md := Some (write_entries now es), memory_fts := w\<rparr>)"
    and d: "distinct (map id_e (readAllEntries t st))"
  shows "distinct (map id_e (readAllEntries t (st\<lparr>memory_md := Some (write_entries now es), memory_fts := w\<rparr>)))"
proof -
  let ?st = "st\<lparr>memory_md := Some (write_entries now es), memory_fts := w\<rparr>"
  have lt: "readLongTerm t ?st = parseMemoryMd t (write_entries now es)" by (simp add: readLongTerm_def)
  have dl: "readDaily t ?st = readDaily t st" by (simp add: readDaily_def)
  have 1: "distinct (map id_e (readLongTerm t st) @ map id_e (readDaily t st))"
    using d by (simp add: readAllEntries_def)
  have 2: "distinct (map id_e (readLongTerm t ?st))" using ps by (simp add: plain_store_def)
  have "set (map id_e (readLongTerm t ?st)) \<subseteq> set (map id_e es)"
    unfolding lt using now p by (rule written_plain(3))
  then have 3: "set (map id_e (readLongTerm t ?st)) \<subseteq> S \<union> set (map id_e (readLongTerm t st))"
    using i long_ids_clock[of now st t] by auto
  have "distinct (map id_e (readLongTerm t ?st) @ map id_e (readDaily t st))"
    using 1 2 3 a by (rule distinct_parts)
  then show ?thesis by (simp add: readAllEntries_def dl)
qed

lemma save_fact_ids:
  assumes s: "plain_store st" and ok: "save_plain now uid text options"
    and ty: "nullish (opt_type options) ''fact'' \<noteq> ''log''"
    and fr: "save_fresh now uid options st"
    and d: "distinct (map id_e (readAllEntries t st))"
  shows "distinct (map id_e (readAllEntries t (snd (save M now uid text options st))))"
proof -
  let ?e = "save_entry now uid text options st"
  let ?es = "upsert_entries M ?e (readLongTerm now st)"
  have now: "field_ok now" using ok by (rule save_plain_now)
  have e: "plain_entry ?e" using s ok by (rule save_entry_plain)
  have "list_all plain_entry (readLongTerm now st)" using s now by (rule plain_store_read)
  then have p: "list_all plain_entry ?es" using e by (rule upsert_entries_plain)
  have i: "set (map id_e ?es) \<subseteq> {id_e ?e} \<union> set (map id_e (readLongTerm now st))"
    using upsert_entries_set[of M ?e "readLongTerm now st"] by auto
  have "id_e ?e \<notin> set (map id_e (readDaily now st))" using fr ty by (simp add: save_fresh_def)
  then have a: "{id_e ?e} \<inter> set (map id_e (readDaily t st)) = {}"
    using daily_ids_clock[of now st t] by simp
  have ps: "plain_store (st\<lparr>memory_md := Some (write_entries now ?es),
      memory_fts := index_upsert ?e (memory_fts st)\<rparr>)"
    using plain_store_save_fact[OF s ok ty, of M] by (simp add: save_fact_store[OF ty])
  show ?thesis
    using written_ids[OF s now p i a ps d] by (simp add: save_fact_store[OF ty])
qed

lemma save_log_ids:
  assumes s: "plain_store st" and ok: "save_plain now uid text options"
    and ty: "nullish (opt_type options) ''fact'' = ''log''"
    and fr: "save_fresh now uid options st"
    and d: "distinct (map id_e (readAllEntries t st))"
  shows "distinct (map id_e (readAllEntries t (snd (save M now uid text options st))))"
proof -
  let ?e = "save_entry now uid text options st"
  let ?x = "serializeEntry ?e @ [NL]"
  let ?st = "st\<lparr>daily_dir := append_file (today now @ ''.md'') ?x (daily_dir st)\<rparr>"
  have e: "plain_entry ?e" using s ok by (rule save_entry_plain)
  have lt: "readLongTerm t ?st = readLongTerm t st" by (simp add: readLongTerm_def)
  have "mset (readDaily t ?st) = mset (readDaily t st) + mset (parseMemoryMd t ?x)"
    using s by (rule appended_daily)
  then have "mset (map id_e (readDaily t ?st))
      = mset (map id_e (readDaily t st)) + mset (map id_e (parseMemoryMd t ?x))"
    by (metis mset_map image_mset_union)
  then have m: "mset (map id_e (readAllEntries t ?st))
      = mset (map id_e (readAllEntries t st)) + mset (map id_e (parseMemoryMd t ?x))"
    by (simp add: readAllEntries_def lt)
  have l: "length (map id_e (parseMemoryMd t ?x)) \<le> 1" using serialized_plain(3)[OF e, of t] by simp
  have "id_e ?e \<notin> set (map id_e (readAllEntries now st))" using fr ty by (simp add: save_fresh_def)
  then have "id_e ?e \<notin> set (map id_e (readAllEntries t st))" using all_ids_clock[of now st t] by simp
  then have n: "set (map id_e (parseMemoryMd t ?x)) \<inter> set (map id_e (readAllEntries t st)) = {}"
    using serialized_plain(2)[OF e, of t] by auto
  have "distinct (map id_e (readAllEntries t ?st))" using m d l n by (rule distinct_add_one)
  moreover have "readAllEntries t (snd (save M now uid text options st)) = readAllEntries t ?st"
    by (simp add: save_log_store[OF ty] readAllEntries_def readLongTerm_def readDaily_def)
  ultimately show ?thesis by simp
qed

lemma save_ids:
  "plain_store st \<Longrightarrow> save_plain now uid text options \<Longrightarrow> save_fresh now uid options st
   \<Longrightarrow> distinct (map id_e (readAllEntries t st))
   \<Longrightarrow> distinct (map id_e (readAllEntries t (snd (save M now uid text options st))))"
  by (cases "nullish (opt_type options) ''fact'' = ''log''") (simp_all add: save_log_ids save_fact_ids)

lemma forget_ids:
  assumes s: "plain_store st" and now: "field_ok now"
    and d: "distinct (map id_e (readAllEntries t st))"
  shows "distinct (map id_e (readAllEntries t (snd (forget now i st))))"
proof -
  let ?es = "filter (\<lambda>e. id_e e \<noteq> i) (readLongTerm now st)"
  let ?w = "filter (\<lambda>r. r_id r \<noteq> i) (memory_fts st)"
  show ?thesis
    using forget_store[of now i st]
  proof
    assume "snd (forget now i st) = st"
    then show ?thesis using d by simp
  next
    assume f: "snd (forget now i st) = st\<lparr>memory_md := Some (write_entries now ?es), memory_fts := ?w\<rparr>"
    have "list_all plain_entry (readLongTerm now st)" using s now by (rule plain_store_read)
    then have p: "list_all plain_entry ?es" by (simp add: list_all_iff)
    have "distinct (map id_e (readLongTerm now st))" using s by (simp add: plain_store_def)
    then have dd: "distinct (map id_e ?es)" by (rule distinct_map_filter)
    have ps: "plain_store (st\<lparr>memory_md := Some (write_entries now ?es), memory_fts := ?w\<rparr>)"
      using plain_store_write[OF s now p dd] by simp
    have i: "set (map id_e ?es) \<subseteq> {} \<union> set (map id_e (readLongTerm now st))" by auto
    have a: "{} \<inter> set (map id_e (readDaily t st)) = {}" by simp
    show ?thesis using written_ids[OF s now p i a ps d] by (simp add: f)
  qed
qed

lemma exec_ids:
  assumes s: "plain_store st" and ok: "op_plain st c" and fr: "op_fresh st c"
    and d: "distinct (map id_e (readAllEntries t st))"
  shows "distinct (map id_e (readAllEntries t (exec MST M c st)))"
proof (cases c)
  case (Save now uid tx opts)
  then show ?thesis using s ok fr d by (simp add: save_ids)
next
  case (Forget now i)
  then show ?thesis using s ok d by (simp add: forget_ids)
next
  case (Flush now uid agentSummary)
  have "readAllEntries t (clearShortTerm x) = readAllEntries t x" for x
    by (simp add: clearShortTerm_def readAllEntries_def readLongTerm_def readDaily_def)
  then show ?thesis
    using Flush s ok fr d by (simp add: flushSession_def save_ids)
next
  case (Add msg)
  then show ?thesis
    using d by (simp add: addToShortTerm_def readAllEntries_def readLongTerm_def readDaily_def)
qed

lemma run_ids:
  "plain_store st \<Longrightarrow> ops_plain MST M cs st \<Longrightarrow> ops_fresh MST M cs st
   \<Longrightarrow> distinct (map id_e (readAllEntries t st))
   \<Longrightarrow> distinct (map id_e (readAllEntries t (run MST M cs st)))"
proof (induction cs arbitrary: st)
  case Nil
  then show ?case by simp
next
  case (Cons c cs)
  have "plain_store (exec MST M c st)" using Cons.prems(1,2) by (simp add: plain_store_exec)
  moreover have "distinct (map id_e (readAllEntries t (exec MST M c st)))"
    using Cons.prems by (simp add: exec_ids)
  ultimately show ?case using Cons.IH Cons.prems by simp
qed

lemma fresh_reads_nothing: "field_ok now \<Longrightarrow> readAllEntries t (fresh now) = []"
  by (simp add: fresh_def init_def empty_store_def rebuildIndex_def
      readAllEntries_def readLongTerm_def readDaily_def md_files_def
      parseMemoryMd_init_header field_ok_def)

section \<open>C1: the index and the files\<close>

lemma plain_index: "map r_content (memory_fts (run 20 200 hist_plain (fresh t1))) = [''hello'']"
  by code_simp

lemma plain_rebuilt:
  "map r_content (memory_fts (rebuildIndex t4 (run 20 200 hist_plain (fresh t1))))
     = [''tags: '' @ [NL] @ ''createdAt: '' @ t2 @ [NL] @ ''updatedAt: '' @ t2 @ [NL]
        @ ''source: agent'' @ [NL, NL] @ ''hello'']"
  by code_simp

lemma trimmed_index: "map r_id (memory_fts (run 20 1 hist_facts (fresh t1))) = [''a'', ''b'']"
  by code_simp

lemma trimmed_rebuilt: "map r_id (memory_fts (rebuildIndex t4 (run 20 1 hist_facts (fresh t1)))) = [''b'']"
  by code_simp

text \<open>
  C1 fails on the code: the index that \<open>save\<close> updates row by row is not the index
  that \<open>rebuildIndex\<close> builds from the files. After a \<open>save\<close> of the content \<open>hello\<close> under
  the id \<open>a\<close>, every option at its default, on a new store, the index holds the row
  with content \<open>hello\<close>, while the file reads back, and a rebuild indexes, an entry whose
  content starts with the \<open>tags:\<close> line (the parser does not take the line \<open>tags:\<close> of an
  empty tag list as metadata). And with \<open>MAX_FACTS = 1\<close> the second of two saves trims
  the entry \<open>a\<close> from the file but not from the index.
\<close>

theorem index_differs_from_rebuild:
  "map r_content (memory_fts (run 20 200 hist_plain (fresh t1))) = [''hello'']
   \<and> map r_content (memory_fts (rebuildIndex t4 (run 20 200 hist_plain (fresh t1))))
       = [''tags: '' @ [NL] @ ''createdAt: '' @ t2 @ [NL] @ ''updatedAt: '' @ t2 @ [NL]
          @ ''source: agent'' @ [NL, NL] @ ''hello'']
   \<and> map r_id (memory_fts (run 20 1 hist_facts (fresh t1))) = [''a'', ''b'']
   \<and> map r_id (memory_fts (rebuildIndex t4 (run 20 1 hist_facts (fresh t1)))) = [''b'']"
  using plain_index plain_rebuilt trimmed_index trimmed_rebuilt by simp

section \<open>C2: ids in the store\<close>

text \<open>
  C2 (as amended). Take the calls \<open>save\<close>, \<open>forget\<close>, \<open>flushSession\<close> and \<open>addToShortTerm\<close>
  on a new memory directory, each at a clock reading that is a tight one-line string,
  and each \<open>save\<close> (that of \<open>flushSession\<close> too) with an id, a type and a source that are
  tight one-line strings, with tags (if any) that hold no line terminator, and with a
  text that has no separator line once trimmed; the tags may be left out and the text
  may be blank. In every store these calls reach, the ids
  of the long-term partition are pairwise distinct. The ids of both partitions
  together are pairwise distinct when, in addition, no log entry was saved under an
  id that the store held and no long-term entry under the id of a log entry.
\<close>

theorem stored_ids_distinct:
  assumes "field_ok now0" "ops_plain MST M cs (fresh now0)"
  shows "distinct (map id_e (readLongTerm t (run MST M cs (fresh now0))))
    \<and> (ops_fresh MST M cs (fresh now0)
        \<longrightarrow> distinct (map id_e (readAllEntries t (run MST M cs (fresh now0)))))"
proof -
  have s: "plain_store (fresh now0)" using assms(1) by (rule plain_store_fresh)
  then have "plain_store (run MST M cs (fresh now0))" using assms(2) by (rule plain_store_run)
  then have "distinct (map id_e (readLongTerm t (run MST M cs (fresh now0))))"
    by (simp add: plain_store_def)
  moreover have "distinct (map id_e (readAllEntries t (fresh now0)))"
    using assms(1) by (simp add: fresh_reads_nothing)
  then have "ops_fresh MST M cs (fresh now0)
      \<longrightarrow> distinct (map id_e (readAllEntries t (run MST M cs (fresh now0))))"
    using run_ids[OF s assms(2)] by blast
  ultimately show ?thesis by blast
qed

lemma hist_mixed_ok: "field_ok t1 \<and> ops_plain 20 200 hist_mixed (fresh t1)"
  by code_simp

lemma hist_mixed_fresh: "ops_fresh 20 200 hist_mixed (fresh t1)"
  by code_simp

lemma hist_mixed_ids:
  "map id_e (readAllEntries t4 (run 20 200 hist_mixed (fresh t1))) = [''a'', ''u2'', ''u5'']"
  by code_simp

theorem stored_ids_distinct_witness:
  "field_ok t1 \<and> ops_plain 20 200 hist_mixed (fresh t1) \<and> ops_fresh 20 200 hist_mixed (fresh t1)
   \<and> distinct (map id_e (readLongTerm t4 (run 20 200 hist_mixed (fresh t1))))
   \<and> distinct (map id_e (readAllEntries t4 (run 20 200 hist_mixed (fresh t1))))
   \<and> map id_e (readAllEntries t4 (run 20 200 hist_mixed (fresh t1))) = [''a'', ''u2'', ''u5'']"
proof -
  have h: "field_ok t1" "ops_plain 20 200 hist_mixed (fresh t1)"
    using hist_mixed_ok by blast+
  show ?thesis
    using h hist_mixed_fresh hist_mixed_ids stored_ids_distinct [OF h, where t = t4] by blast
qed

text \<open>
  C2 as stated fails: a log entry saved under an id is appended whatever the store
  holds, so two log saves under the id \<open>a\<close> leave two records with that id. The
  long-term partition alone repeats an id as well when a save brings an id that the
  text form does not give back: saved under \<open> a\<close> after \<open>a\<close>, the entry is read with the
  id \<open>a\<close>; a tag with a line break before \<open>id: b\<close> makes the entry \<open>a\<close> read as \<open>b\<close>; and a
  content with a separator line before \<open>id: c\<close> is read as two entries, \<open>a\<close> and \<open>c\<close>.
\<close>

lemma log_twice_ids: "map id_e (readAllEntries t4 (run 20 200 hist_logs (fresh t1))) = [''a'', ''a'']"
  by code_simp

lemma space_ids: "map id_e (readLongTerm t4 (run 20 200 hist_space (fresh t1))) = [''a'', ''a'']"
  by code_simp

lemma tag_line_ids: "map id_e (readLongTerm t4 (run 20 200 hist_tag_line (fresh t1))) = [''b'', ''b'']"
  by code_simp

lemma spoof_twice_ids:
  "map id_e (readLongTerm t4 (run 20 200 hist_spoof_twice (fresh t1))) = [''c'', ''a'', ''c'']"
  by code_simp

theorem stored_ids_counterexample:
  "map id_e (readAllEntries t4 (run 20 200 hist_logs (fresh t1))) = [''a'', ''a'']
   \<and> map id_e (readLongTerm t4 (run 20 200 hist_space (fresh t1))) = [''a'', ''a'']
   \<and> map id_e (readLongTerm t4 (run 20 200 hist_tag_line (fresh t1))) = [''b'', ''b'']
   \<and> map id_e (readLongTerm t4 (run 20 200 hist_spoof_twice (fresh t1))) = [''c'', ''a'', ''c'']"
  using log_twice_ids space_ids tag_line_ids spoof_twice_ids by blast

section \<open>C3: serialize, then parse\<close>

text \<open>
  C3 (as amended). For every entry whose metadata values are tight one-line strings,
  whose tag list is not empty and holds tags without commas, and whose content has a
  character that is not whitespace and no line that is exactly \<open>---\<close>:
  \<open>parseMemoryMd (serializeEntry e)\<close> is the one entry \<open>e\<close> with its content trimmed.
\<close>

theorem serialize_parse_roundtrip:
  assumes "meta_ok e" "trim (content e) \<noteq> []" "no_separator True (content e)"
  shows "parseMemoryMd now (serializeEntry e) = [e\<lparr>content := trim (content e)\<rparr>]"
  using assms
  by (simp add: parseMemoryMd_def blocks_of_serializeEntry parse_block_entry List.map_filter_simps)

lemma sample_entry_ok:
  "meta_ok sample_entry \<and> trim (content sample_entry) \<noteq> [] \<and> no_separator True (content sample_entry)"
  by (simp add: sample_entry_def meta_ok_def field_ok_def tag_ok_def tight_def is_ws_def is_lt_def
      t1_def t2_def trim_def NL_def sep_here_def)

theorem serialize_parse_roundtrip_witness:
  "meta_ok sample_entry \<and> trim (content sample_entry) \<noteq> [] \<and> no_separator True (content sample_entry)
   \<and> parseMemoryMd t3 (serializeEntry sample_entry)
       = [sample_entry\<lparr>content := ''Dentist on Tuesday'' @ [NL] @ ''3pm''\<rparr>]"
proof -
  have "trim (content sample_entry) = ''Dentist on Tuesday'' @ [NL] @ ''3pm''"
    by (simp add: sample_entry_def trim_def is_ws_def NL_def)
  then show ?thesis
    using sample_entry_ok
      serialize_parse_roundtrip [of sample_entry t3]
    by simp
qed

text \<open>
  C3 as stated fails: a tag with a comma comes back as two tags, and a content line
  \<open>---\<close> ends the block, so the rest of the content is lost.
\<close>

lemma parse_comma_entry:
  "parseMemoryMd t3 (serializeEntry comma_entry) = [comma_entry\<lparr>tags := [''a'', ''b'']\<rparr>]"
  by code_simp

lemma parse_rule_entry:
  "parseMemoryMd t3 (serializeEntry rule_entry) = [rule_entry\<lparr>content := ''x''\<rparr>]"
  by code_simp

theorem serialize_parse_counterexample:
  "parseMemoryMd t3 (serializeEntry comma_entry) = [comma_entry\<lparr>tags := [''a'', ''b'']\<rparr>]
   \<and> parseMemoryMd t3 (serializeEntry comma_entry) \<noteq> [comma_entry\<lparr>content := trim (content comma_entry)\<rparr>]
   \<and> parseMemoryMd t3 (serializeEntry rule_entry) = [rule_entry\<lparr>content := ''x''\<rparr>]
   \<and> parseMemoryMd t3 (serializeEntry rule_entry) \<noteq> [rule_entry\<lparr>content := trim (content rule_entry)\<rparr>]"
  unfolding parse_comma_entry parse_rule_entry
  by (simp add: comma_entry_def rule_entry_def trim_def is_ws_def NL_def)

section \<open>C4: trimming to MAX_FACTS\<close>

lemma saved_length: "list_all fact_save cs \<Longrightarrow> length (saved MST M cs st) = length cs"
proof (induction cs arbitrary: st)
  case Nil
  then show ?case by simp
next
  case (Cons c cs)
  then show ?case by (cases c) simp_all
qed

lemma keeps_full:
  assumes k: "keeps L S M" and d: "distinct L" and x: "x \<in> set S" "x \<notin> set L"
  shows "length L = M"
proof (rule ccontr)
  assume "length L \<noteq> M"
  with k have len: "length L = length S" by (auto simp: keeps_def min_def split: if_splits)
  have sub: "set L \<subseteq> set S" using k by (simp add: keeps_def)
  have "card (set S) \<le> length S" by (rule card_length)
  also have "\<dots> = card (set L)" using d len by (simp add: distinct_card)
  finally have "set L = set S" using sub by (intro card_seteq) simp_all
  with x show False by simp
qed

lemma keeps_step:
  assumes k: "keeps L S M" and M: "0 < M" and e: "e \<notin> set L" and d: "distinct L"
  shows "keeps (slice_from (- int M) (sort_key updatedAt (L @ [e]))) (S @ [e]) M"
proof -
  let ?T = "sort_key updatedAt (L @ [e])"
  let ?k = "length ?T - M"
  let ?L = "drop ?k ?T"
  have sl: "slice_from (- int M) ?T = ?L" using M by (simp add: slice_from_drop)
  have lenT: "length ?T = length L + 1" by simp
  have lenL: "length L = min (length S) M" using k by (simp add: keeps_def)
  have setT: "set ?T = insert e (set L)" by simp
  have sortedT: "sorted (map updatedAt ?T)" by simp
  have distT: "distinct ?T" using e d by simp
  have td: "?T = take ?k ?T @ ?L" by simp
  have 1: "length ?L = min (length (S @ [e])) M" using lenL by (auto simp: min_def)
  have 2: "sorted (map updatedAt ?L)"
    using sortedT by (simp only: drop_map[symmetric] sorted_wrt_drop)
  have 3: "set ?L \<subseteq> set (S @ [e])"
  proof -
    have "set ?L \<subseteq> set ?T" by (rule set_drop_subset)
    moreover have "set L \<subseteq> set S" using k by (simp add: keeps_def)
    ultimately show ?thesis using setT by auto
  qed
  have low: "\<And>a b. a \<in> set (take ?k ?T) \<Longrightarrow> b \<in> set ?L \<Longrightarrow> updatedAt a \<le> updatedAt b"
  proof -
    fix a b assume a: "a \<in> set (take ?k ?T)" and b: "b \<in> set ?L"
    have "sorted (map updatedAt (take ?k ?T) @ map updatedAt ?L)"
      using sortedT by (metis td map_append)
    then show "updatedAt a \<le> updatedAt b" using a b by (auto simp: sorted_append)
  qed
  have 4: "\<forall>y\<in>set ?L. \<forall>x\<in>set (S @ [e]). x \<notin> set ?L \<longrightarrow> updatedAt x \<le> updatedAt y"
  proof (intro ballI impI)
    fix y x assume y: "y \<in> set ?L" and x: "x \<in> set (S @ [e])" and xn: "x \<notin> set ?L"
    show "updatedAt x \<le> updatedAt y"
    proof (cases "x \<in> set ?T")
      case True
      then have "x \<in> set (take ?k ?T) \<union> set ?L" by (metis td set_append)
      with xn have "x \<in> set (take ?k ?T)" by simp
      then show ?thesis using y by (rule low)
    next
      case False
      then have xS: "x \<in> set S" "x \<notin> set L" using x setT by auto
      then have full: "length L = M" using keeps_full[OF k d] by blast
      then have k1: "?k = 1" using lenT by simp
      have yT: "y \<in> set ?T" using y set_drop_subset[of ?k ?T] by blast
      show ?thesis
      proof (cases "y \<in> set L")
        case True
        then show ?thesis using k xS by (auto simp: keeps_def)
      next
        case False
        with yT setT have ye: "y = e" by auto
        obtain z where z: "take ?k ?T = [z]"
          using k1 lenT by (cases ?T) simp_all
        then have zT: "?T = z # ?L" using td by simp
        then have "z \<notin> set ?L" using distT by (metis distinct.simps(2))
        with y ye have "z \<noteq> e" by auto
        moreover have "z \<in> set ?T" using zT by (metis list.set_intros(1))
        ultimately have zL: "z \<in> set L" using setT by auto
        have "updatedAt x \<le> updatedAt z" using k xS zL by (auto simp: keeps_def)
        moreover have "updatedAt z \<le> updatedAt y" using low[of z y] z y by simp
        ultimately show ?thesis by (rule order_trans)
      qed
    qed
  qed
  show ?thesis unfolding sl keeps_def using 1 2 3 4 by blast
qed

lemma trim_run:
  assumes "store_rep st L D" "0 < M" "list_all fact_save cs" "ops_ok MST M cs st"
    "distinct (map op_id cs)" "set (map op_id cs) \<inter> set (map id_e L) = {}" "keeps L S M"
  shows "\<exists>L' D'. store_rep (run MST M cs st) L' D' \<and> keeps L' (S @ saved MST M cs st) M"
  using assms
proof (induction cs arbitrary: st L D S)
  case Nil
  then show ?case by auto
next
  case (Cons c cs)
  from Cons.prems(3) obtain now uid tx opts where c: "c = Save now uid tx opts"
    by (cases c) simp_all
  let ?e = "save_entry now uid tx opts st"
  let ?st = "exec MST M c st"
  let ?L = "upsert_entries M ?e L"
  have ft: "nullish (opt_type opts) ''fact'' \<noteq> ''log''" using Cons.prems(3) c by simp
  have ok: "save_ok now uid tx opts" using Cons.prems(4) c by simp
  have r1: "store_rep ?st ?L D"
    using Cons.prems(1) ok ft c by (simp add: store_rep_save_fact)
  have idn: "id_e ?e \<notin> set (map id_e L)" using Cons.prems(6) c by simp
  have en: "?e \<notin> set L"
  proof
    assume "?e \<in> set L"
    then have "id_e ?e \<in> set (map id_e L)" by (simp only: set_map) (rule imageI)
    with idn show False by simp
  qed
  have dL: "distinct L" using Cons.prems(1) by (auto simp: store_rep_def distinct_map)
  have L1: "?L = slice_from (- int M) (sort_key updatedAt (L @ [?e]))"
    using idn by (simp add: upsert_entries_put put_entry_new)
  have k1: "keeps ?L (S @ [?e]) M"
    unfolding L1 using Cons.prems(7) Cons.prems(2) en dL by (rule keeps_step)
  have a: "set (map id_e ?L) \<subseteq> insert (id_e ?e) (set (map id_e L))"
    using upsert_entries_set[of M ?e L] by auto
  have b: "id_e ?e \<notin> set (map op_id cs)" using Cons.prems(5) c by simp
  have c0: "set (map op_id cs) \<inter> set (map id_e L) = {}" using Cons.prems(6) by auto
  have new: "set (map op_id cs) \<inter> set (map id_e ?L) = {}"
    using a b c0 by blast
  have "\<exists>L' D'. store_rep (run MST M cs ?st) L' D' \<and> keeps L' ((S @ [?e]) @ saved MST M cs ?st) M"
    using r1 Cons.prems(2) _ _ _ new k1
  proof (rule Cons.IH)
    show "list_all fact_save cs" using Cons.prems(3) by simp
    show "ops_ok MST M cs ?st" using Cons.prems(4) by simp
    show "distinct (map op_id cs)" using Cons.prems(5) by simp
  qed
  then show ?case using c by simp
qed

text \<open>
  C4 (as amended). Let \<open>MAX_FACTS\<close> be positive and the long-term partition of a store
  reached by well-formed calls be empty. After more than \<open>MAX_FACTS\<close> well-formed saves
  of kinds other than \<open>log\<close> under pairwise distinct ids, the long-term partition holds
  exactly \<open>MAX_FACTS\<close> entries, each one of the saved entries, and no saved entry that
  it does not hold has a greater \<open>updatedAt\<close> than one it holds.
\<close>

theorem trim_keeps_newest:
  assumes "0 < M" "field_ok now0" "ops_ok MST M pre (fresh now0)"
    and "readLongTerm t (run MST M pre (fresh now0)) = []"
    and "list_all fact_save cs" "ops_ok MST M cs (run MST M pre (fresh now0))"
    and "distinct (map op_id cs)" "M < length cs"
  shows "length (readLongTerm t (run MST M cs (run MST M pre (fresh now0)))) = M
    \<and> set (readLongTerm t (run MST M cs (run MST M pre (fresh now0))))
        \<subseteq> set (saved MST M cs (run MST M pre (fresh now0)))
    \<and> (\<forall>e\<in>set (readLongTerm t (run MST M cs (run MST M pre (fresh now0)))).
        \<forall>d\<in>set (saved MST M cs (run MST M pre (fresh now0))).
          d \<notin> set (readLongTerm t (run MST M cs (run MST M pre (fresh now0))))
          \<longrightarrow> updatedAt d \<le> updatedAt e)"
proof -
  let ?st0 = "run MST M pre (fresh now0)"
  obtain L D where r: "store_rep ?st0 L D" using reached_rep[OF assms(2,3)] by blast
  have "L = []" using assms(4) store_rep_long[OF r, of t] by simp
  with r have r0: "store_rep ?st0 [] D" by simp
  have "keeps [] [] M" by (simp add: keeps_def)
  then obtain L' D' where r': "store_rep (run MST M cs ?st0) L' D'"
    and k: "keeps L' ([] @ saved MST M cs ?st0) M"
    using trim_run[OF r0 assms(1) assms(5) assms(6) assms(7), of "[]"] by auto
  have "length (saved MST M cs ?st0) = length cs" using assms(5) by (rule saved_length)
  with k assms(8) show ?thesis
    by (simp add: store_rep_long[OF r'] keeps_def)
qed

lemma trim_hist_ok:
  "(0::nat) < 1 \<and> field_ok t1 \<and> ops_ok 20 1 [] (fresh t1)
   \<and> readLongTerm t4 (run 20 1 [] (fresh t1)) = []
   \<and> list_all fact_save hist_facts \<and> ops_ok 20 1 hist_facts (run 20 1 [] (fresh t1))
   \<and> distinct (map op_id hist_facts) \<and> 1 < length hist_facts"
  by code_simp

theorem trim_keeps_newest_witness:
  "(0::nat) < 1 \<and> field_ok t1 \<and> ops_ok 20 1 [] (fresh t1)
   \<and> readLongTerm t4 (run 20 1 [] (fresh t1)) = []
   \<and> list_all fact_save hist_facts \<and> ops_ok 20 1 hist_facts (run 20 1 [] (fresh t1))
   \<and> distinct (map op_id hist_facts) \<and> 1 < length hist_facts
   \<and> length (readLongTerm t4 (run 20 1 hist_facts (run 20 1 [] (fresh t1)))) = 1
   \<and> set (readLongTerm t4 (run 20 1 hist_facts (run 20 1 [] (fresh t1))))
        \<subseteq> set (saved 20 1 hist_facts (run 20 1 [] (fresh t1)))"
  using trim_hist_ok
    trim_keeps_newest [of 1 t1 20 "[]" t4 hist_facts]
  by simp

text \<open>
  C4 as stated fails in two ways. With \<open>MAX_FACTS = 0\<close> nothing is trimmed (\<open>slice(-0)\<close>
  is the whole list): one saved entry stays. And entries saved with an empty content
  are dropped by the parser: with \<open>MAX_FACTS = 1\<close>, after two such saves the long-term
  partition holds no entry.
\<close>

lemma trim_zero: "length (readLongTerm t4 (run 20 0 [Save t2 ''u1'' ''one'' fact_a] (fresh t1))) = 1"
  by code_simp

lemma trim_blank: "readLongTerm t4 (run 20 1 hist_blank (fresh t1)) = []"
  by code_simp

theorem trim_counterexample:
  "length (readLongTerm t4 (run 20 0 [Save t2 ''u1'' ''one'' fact_a] (fresh t1))) = 1
   \<and> length (readLongTerm t4 (run 20 1 hist_blank (fresh t1))) = 0"
  using trim_zero trim_blank by simp

section \<open>C5: saving twice under one id\<close>

lemma first_save_created:
  "createdAt (fst (save 200 t2 ''u1'' ''hello'' plain_a (fresh t1))) = t2"
  by code_simp

lemma second_save_created:
  "createdAt (fst (save 200 t3 ''u2'' ''hello'' plain_a (run 20 200 hist_plain (fresh t1)))) = t3"
  by code_simp

lemma read_after_second_save:
  "map createdAt (readAllEntries t4
     (snd (save 200 t3 ''u2'' ''hello'' plain_a (run 20 200 hist_plain (fresh t1))))) = [t4]"
  by code_simp

text \<open>
  C5 fails on the code. Save the content \<open>hello\<close> under the id \<open>a\<close> twice on a new
  store, every option at its default: the first call gives the entry the \<open>createdAt\<close>
  of its clock reading, the second call does not find that value (the entry was
  written with an empty tag list, and the parser takes every line from \<open>tags:\<close> on as
  content), so it gives the entry the \<open>createdAt\<close> of the second call; what
  \<open>readAllEntries\<close> returns later has the time of that read.
\<close>

theorem second_save_loses_createdAt:
  "run 20 200 hist_plain (fresh t1) = snd (save 200 t2 ''u1'' ''hello'' plain_a (fresh t1))
   \<and> createdAt (fst (save 200 t2 ''u1'' ''hello'' plain_a (fresh t1))) = t2
   \<and> createdAt (fst (save 200 t3 ''u2'' ''hello'' plain_a (run 20 200 hist_plain (fresh t1)))) = t3
   \<and> map createdAt (readAllEntries t4
        (snd (save 200 t3 ''u2'' ''hello'' plain_a (run 20 200 hist_plain (fresh t1))))) = [t4]
   \<and> t2 \<noteq> t3 \<and> t2 \<noteq> t4"
  using first_save_created second_save_created read_after_second_save
  by (simp add: hist_plain_def t2_def t3_def t4_def)

section \<open>C6: the fallback of search\<close>

lemma like_percent_all: "like ''%'' s"
  by (induction s) simp_all

lemma like_literal_prefix:
  "CHR ''%'' \<notin> set q \<Longrightarrow> CHR ''_'' \<notin> set q \<Longrightarrow> like (q @ ''%'') s = ci_prefix q s"
proof (induction q arbitrary: s)
  case Nil
  then show ?case using like_percent_all by (simp add: ci_prefix_def)
next
  case (Cons p ps)
  show ?case
  proof (cases s)
    case Nil
    then show ?thesis using Cons.prems by (auto simp: ci_prefix_def)
  next
    case (Cons c cs)
    have "like (ps @ ''%'') cs = ci_prefix ps cs" using Cons.prems by (intro Cons.IH) simp_all
    then show ?thesis using Cons Cons.prems by (auto simp: ci_prefix_def)
  qed
qed

lemma like_percent_cons: "like (CHR ''%'' # p) s = (\<exists>n\<le>length s. like p (drop n s))"
proof (induction s)
  case Nil
  then show ?case by simp
next
  case (Cons c cs)
  have "(\<exists>n\<le>length (c # cs). like p (drop n (c # cs)))
      = (like p (c # cs) \<or> (\<exists>n\<le>length cs. like p (drop n cs)))"
  proof
    assume "\<exists>n\<le>length (c # cs). like p (drop n (c # cs))"
    then obtain n where n: "n \<le> length (c # cs)" "like p (drop n (c # cs))" by blast
    show "like p (c # cs) \<or> (\<exists>n\<le>length cs. like p (drop n cs))"
    proof (cases n)
      case 0
      with n show ?thesis by simp
    next
      case (Suc k)
      with n have "k \<le> length cs" "like p (drop k cs)" by simp_all
      then show ?thesis by blast
    qed
  next
    assume "like p (c # cs) \<or> (\<exists>n\<le>length cs. like p (drop n cs))"
    then show "\<exists>n\<le>length (c # cs). like p (drop n (c # cs))"
    proof
      assume "like p (c # cs)"
      then have "0 \<le> length (c # cs) \<and> like p (drop 0 (c # cs))" by simp
      then show ?thesis by blast
    next
      assume "\<exists>n\<le>length cs. like p (drop n cs)"
      then obtain n where "n \<le> length cs" "like p (drop n cs)" by blast
      then have "Suc n \<le> length (c # cs) \<and> like p (drop (Suc n) (c # cs))" by simp
      then show ?thesis by blast
    qed
  qed
  with Cons show ?case by simp
qed

lemma ci_contains_drop: "ci_contains q s = (\<exists>n\<le>length s. ci_prefix q (drop n s))"
proof (induction s)
  case Nil
  then show ?case by (auto simp: ci_prefix_def)
next
  case (Cons c cs)
  have "(\<exists>n\<le>length (c # cs). ci_prefix q (drop n (c # cs)))
      = (ci_prefix q (c # cs) \<or> (\<exists>n\<le>length cs. ci_prefix q (drop n cs)))"
  proof
    assume "\<exists>n\<le>length (c # cs). ci_prefix q (drop n (c # cs))"
    then obtain n where n: "n \<le> length (c # cs)" "ci_prefix q (drop n (c # cs))" by blast
    show "ci_prefix q (c # cs) \<or> (\<exists>n\<le>length cs. ci_prefix q (drop n cs))"
    proof (cases n)
      case 0
      with n show ?thesis by simp
    next
      case (Suc k)
      with n have "k \<le> length cs" "ci_prefix q (drop k cs)" by simp_all
      then show ?thesis by blast
    qed
  next
    assume "ci_prefix q (c # cs) \<or> (\<exists>n\<le>length cs. ci_prefix q (drop n cs))"
    then show "\<exists>n\<le>length (c # cs). ci_prefix q (drop n (c # cs))"
    proof
      assume "ci_prefix q (c # cs)"
      then have "0 \<le> length (c # cs) \<and> ci_prefix q (drop 0 (c # cs))" by simp
      then show ?thesis by blast
    next
      assume "\<exists>n\<le>length cs. ci_prefix q (drop n cs)"
      then obtain n where "n \<le> length cs" "ci_prefix q (drop n cs)" by blast
      then have "Suc n \<le> length (c # cs) \<and> ci_prefix q (drop (Suc n) (c # cs))" by simp
      then show ?thesis by blast
    qed
  qed
  with Cons show ?case by simp
qed

lemma like_contains:
  assumes "CHR ''%'' \<notin> set q" "CHR ''_'' \<notin> set q"
  shows "like (CHR ''%'' # q @ ''%'') s = ci_contains q s"
proof -
  have "like (CHR ''%'' # q @ ''%'') s = (\<exists>n\<le>length s. like (q @ ''%'') (drop n s))"
    by (rule like_percent_cons)
  also have "\<dots> = (\<exists>n\<le>length s. ci_prefix q (drop n s))"
    using assms by (simp add: like_literal_prefix)
  finally show ?thesis by (simp add: ci_contains_drop)
qed

text \<open>The recursive definition is the usual notion of an occurrence.\<close>

lemma ci_contains_occurs:
  "ci_contains q s = (\<exists>pre mid post. s = pre @ mid @ post \<and> map lower_ascii mid = map lower_ascii q)"
proof
  assume "ci_contains q s"
  then obtain n where n: "n \<le> length s" "ci_prefix q (drop n s)" by (auto simp: ci_contains_drop)
  let ?mid = "take (length q) (drop n s)"
  have "s = take n s @ ?mid @ drop (length q) (drop n s)" by (simp only: append_take_drop_id)
  moreover have "map lower_ascii ?mid = map lower_ascii q" using n(2) by (simp add: ci_prefix_def)
  ultimately show "\<exists>pre mid post. s = pre @ mid @ post \<and> map lower_ascii mid = map lower_ascii q"
    by blast
next
  assume "\<exists>pre mid post. s = pre @ mid @ post \<and> map lower_ascii mid = map lower_ascii q"
  then obtain pre mid post where s: "s = pre @ mid @ post" and m: "map lower_ascii mid = map lower_ascii q"
    by blast
  from m have len: "length mid = length q" by (metis length_map)
  have "ci_prefix q (drop (length pre) s)" using s m len by (simp add: ci_prefix_def)
  moreover have "length pre \<le> length s" using s by simp
  ultimately show "ci_contains q s" unfolding ci_contains_drop by blast
qed

lemma c_string_id: "CHR 0x00 \<notin> set s \<Longrightarrow> c_string s = s"
  unfolding c_string_def by (rule takeWhile_eq_all_conv[THEN iffD2]) auto

lemma sql_like_contains:
  assumes "CHR ''%'' \<notin> set q" "CHR ''_'' \<notin> set q" "CHR 0x00 \<notin> set q"
  shows "sql_like (CHR ''%'' # q @ ''%'') v = ci_contains q (c_string v)"
proof -
  have "CHR 0x00 \<notin> set (CHR ''%'' # q @ ''%'')" using assms(3) by simp
  then have "c_string (CHR ''%'' # q @ ''%'') = CHR ''%'' # q @ ''%''" by (rule c_string_id)
  then have "sql_like (CHR ''%'' # q @ ''%'') v = like (CHR ''%'' # q @ ''%'') (c_string v)"
    by (simp only: sql_like_def)
  also have "\<dots> = ci_contains q (c_string v)" using assms(1,2) by (rule like_contains)
  finally show ?thesis .
qed

lemma limit_rows_take: "limit_rows n xs = (if n < 0 then xs else take (nat n) xs)"
proof (induction xs arbitrary: n)
  case Nil
  then show ?case by simp
next
  case (Cons x xs)
  have IH: "limit_rows (n - 1) xs = (if n - 1 < 0 then xs else take (nat (n - 1)) xs)"
    by (rule Cons.IH)
  consider "n = 0" | "n < 0" | "0 < n" by linarith
  then show ?case
  proof cases
    case 1
    then show ?thesis by simp
  next
    case 2
    then show ?thesis using IH by simp
  next
    case 3
    then have "nat n = Suc (nat (n - 1))" by simp
    then show ?thesis using 3 IH by simp
  qed
qed

lemma utf8_length_pattern: "utf8_length (CHR ''%'' # q @ ''%'') = utf8_length q + 2"
  by (simp add: utf8_length_def)

text \<open>The errors of the \<open>LIKE\<close> statement leave \<open>search\<close>: a limit that is no 64-bit
  integer, and a long query once a row is read.\<close>

lemma search_bad_limit_raises:
  assumes "fts5 query limit (memory_fts st) = None" "trim query \<noteq> []"
    and "utf8_length query + 2 \<le> 1000000000" "limit_value limit = None"
  shows "search fts5 query limit st = Inl Datatype_mismatch"
  using assms by (simp add: search_def like_statement_def utf8_length_pattern)

lemma search_long_query_raises:
  assumes "fts5 query limit (memory_fts st) = None" "trim query \<noteq> []"
    and "49999 \<le> utf8_length query" "utf8_length query + 2 \<le> 1000000000"
    and "limit_value limit = Some n" "n \<noteq> 0" "memory_fts st \<noteq> []"
  shows "search fts5 query limit st = Inl Pattern_too_complex"
  using assms by (simp add: search_def like_statement_def utf8_length_pattern)

text \<open>
  C6 (as amended). Let SQLite reject the \<open>MATCH\<close> statement for a query that has a
  character that is not whitespace, none of \<open>%\<close>, \<open>_\<close> and NUL, and fewer than 49999
  bytes, and let the limit be an integer \<open>n\<close> strictly between the ends of the 64-bit
  range. Then \<open>search\<close> raises nothing: it returns the first \<open>n\<close> rows (all of them
  under a negative limit), in table order, whose content or tags column, read up to
  its first NUL, contains the query up to the case of ASCII letters, each with score
  1 and the first 120 characters of the content as snippet.
\<close>

theorem search_fallback:
  assumes "fts5 query limit (memory_fts st) = None"
    and "trim query \<noteq> []"
    and "CHR ''%'' \<notin> set query" and "CHR ''_'' \<notin> set query" and "CHR 0x00 \<notin> set query"
    and "utf8_length query < 49999"
    and "limit = Integral n" and "- (2 ^ 63) < n" and "n < 2 ^ 63 - 1"
  shows "\<exists>results. search fts5 query limit st = Inr results
    \<and> results = map like_result (limit_rows n
        (filter (\<lambda>r. ci_contains query (c_string (r_content r))
                   \<or> ci_contains query (c_string (r_tags r))) (memory_fts st)))
    \<and> list_all (\<lambda>x. score x = 1 \<and> snippet x = take 120 (content (entry x))) results
    \<and> (0 \<le> n \<longrightarrow> length results \<le> nat n)"
proof -
  let ?p = "CHR ''%'' # query @ ''%''"
  let ?R = "filter (\<lambda>r. ci_contains query (c_string (r_content r))
                   \<or> ci_contains query (c_string (r_tags r))) (memory_fts st)"
  have "\<And>v. sql_like ?p v = ci_contains query (c_string v)"
    using assms(3,4,5) by (rule sql_like_contains)
  then have rows: "like_rows ?p (memory_fts st) = ?R"
    by (simp only: like_rows_def)
  have lv: "limit_value limit = Some n" using assms(7,8,9) by (simp add: limit_value_def)
  have len: "\<not> 1000000000 < utf8_length ?p" "\<not> 50000 < utf8_length ?p"
    using assms(6) by (simp_all add: utf8_length_pattern)
  have "like_statement ?p limit (memory_fts st) = Inr (limit_rows n ?R)"
  proof (cases "n = 0 \<or> memory_fts st = []")
    case True
    then have "limit_rows n ?R = []" by (cases ?R) auto
    then show ?thesis using True lv len by (simp add: like_statement_def)
  next
    case False
    then show ?thesis using lv len rows by (simp add: like_statement_def)
  qed
  then have s: "search fts5 query limit st = Inr (map like_result (limit_rows n ?R))"
    using assms(1,2) by (simp add: search_def)
  have "list_all (\<lambda>x. score x = 1 \<and> snippet x = take 120 (content (entry x)))
      (map like_result (limit_rows n ?R))"
    by (simp add: list_all_iff like_result_def entry_of_row_def)
  moreover have "0 \<le> n \<longrightarrow> length (map like_result (limit_rows n ?R)) \<le> nat n"
    by (simp add: limit_rows_take)
  ultimately show ?thesis using s by blast
qed

lemma quote_query_ok:
  "fts5_rejects ([CHR 0x22] @ ''AB'') (Integral 5) (memory_fts quote_store) = None
   \<and> trim ([CHR 0x22] @ ''AB'') \<noteq> []
   \<and> CHR ''%'' \<notin> set ([CHR 0x22] @ ''AB'') \<and> CHR ''_'' \<notin> set ([CHR 0x22] @ ''AB'')
   \<and> CHR 0x00 \<notin> set ([CHR 0x22] @ ''AB'')
   \<and> utf8_length ([CHR 0x22] @ ''AB'') < 49999
   \<and> - (2 ^ 63) < (5::int) \<and> (5::int) < 2 ^ 63 - 1"
  by (simp add: fts5_rejects_def trim_def is_ws_def utf8_length_def)

lemma quote_query_rows:
  "map like_result (limit_rows 5
        (filter (\<lambda>r. ci_contains ([CHR 0x22] @ ''AB'') (c_string (r_content r))
                   \<or> ci_contains ([CHR 0x22] @ ''AB'') (c_string (r_tags r))) (memory_fts quote_store)))
     = [like_result quote_row]"
  by (simp add: quote_store_def quote_row_def c_string_def ci_prefix_def lower_ascii_def)

theorem search_fallback_witness:
  "fts5_rejects ([CHR 0x22] @ ''AB'') (Integral 5) (memory_fts quote_store) = None
   \<and> trim ([CHR 0x22] @ ''AB'') \<noteq> []
   \<and> CHR ''%'' \<notin> set ([CHR 0x22] @ ''AB'') \<and> CHR ''_'' \<notin> set ([CHR 0x22] @ ''AB'')
   \<and> CHR 0x00 \<notin> set ([CHR 0x22] @ ''AB'')
   \<and> utf8_length ([CHR 0x22] @ ''AB'') < 49999
   \<and> - (2 ^ 63) < (5::int) \<and> (5::int) < 2 ^ 63 - 1
   \<and> search fts5_rejects ([CHR 0x22] @ ''AB'') (Integral 5) quote_store = Inr [like_result quote_row]"
proof -
  have h: "fts5_rejects ([CHR 0x22] @ ''AB'') (Integral 5) (memory_fts quote_store) = None"
    "trim ([CHR 0x22] @ ''AB'') \<noteq> []"
    "CHR ''%'' \<notin> set ([CHR 0x22] @ ''AB'')" "CHR ''_'' \<notin> set ([CHR 0x22] @ ''AB'')"
    "CHR 0x00 \<notin> set ([CHR 0x22] @ ''AB'')"
    "utf8_length ([CHR 0x22] @ ''AB'') < 49999"
    and i: "Integral 5 = Integral 5"
    and r: "- (2 ^ 63) < (5::int)" "(5::int) < 2 ^ 63 - 1"
    using quote_query_ok by simp_all
  have "search fts5_rejects ([CHR 0x22] @ ''AB'') (Integral 5) quote_store = Inr [like_result quote_row]"
    using search_fallback [of fts5_rejects "[CHR 0x22] @ ''AB''" "Integral 5" quote_store 5, OF h i r]
    by (simp only: quote_query_rows) blast
  then show ?thesis using h r by blast
qed

text \<open>
  C6 as stated fails. With the limit 1.5 the \<open>LIKE\<close> statement raises, and nothing
  catches that: \<open>search\<close> throws. The query \<open>"a_c\<close> (an unbalanced quote, which FTS5
  rejects) finds the row with content \<open>"abc\<close>, which does not contain the query: \<open>_\<close>
  is a wildcard of \<open>LIKE\<close>. A query of one space returns nothing, whatever the rows
  contain. A query with a NUL is cut there, the closing \<open>%\<close> with it, and finds the row
  that ends with what is left; and a row is not found by what it holds after a NUL.
\<close>

lemma fraction_limit_raises:
  "search fts5_rejects ([CHR 0x22] @ ''abc'') Not_integral quote_store = Inl Datatype_mismatch"
  by (simp add: search_def fts5_rejects_def like_statement_def limit_value_def utf8_length_def
      trim_def is_ws_def)

lemma underscore_query_rows:
  "search fts5_rejects ([CHR 0x22] @ ''a_c'') (Integral 5) quote_store = Inr [like_result quote_row]"
  by (simp add: search_def fts5_rejects_def quote_store_def like_statement_def limit_value_def
      utf8_length_def like_rows_def sql_like_def c_string_def quote_row_def
      trim_def is_ws_def lower_ascii_def)

lemma blank_query_rows:
  "search fts5_rejects '' '' (Integral 5) (quote_store\<lparr>memory_fts := [quote_row\<lparr>r_content := ''a b''\<rparr>]\<rparr>) = Inr []"
  by (simp add: search_def trim_def is_ws_def)

lemma nul_query_rows:
  "search fts5_rejects ([CHR 0x22] @ ''a'' @ [CHR 0x00] @ ''zzz'') (Integral 5)
      (quote_store\<lparr>memory_fts := [tail_row]\<rparr>) = Inr [like_result tail_row]"
  by (simp add: search_def fts5_rejects_def like_statement_def limit_value_def
      utf8_length_def like_rows_def sql_like_def c_string_def tail_row_def
      trim_def is_ws_def lower_ascii_def)

lemma nul_row_rows:
  "search fts5_rejects ([CHR 0x22] @ ''abc'') (Integral 5) (quote_store\<lparr>memory_fts := [nul_row]\<rparr>) = Inr []"
  by (simp add: search_def fts5_rejects_def like_statement_def limit_value_def
      utf8_length_def like_rows_def sql_like_def c_string_def nul_row_def
      trim_def is_ws_def lower_ascii_def)

theorem search_fallback_counterexample:
  "search fts5_rejects ([CHR 0x22] @ ''abc'') Not_integral quote_store = Inl Datatype_mismatch
   \<and> search fts5_rejects ([CHR 0x22] @ ''a_c'') (Integral 5) quote_store = Inr [like_result quote_row]
   \<and> \<not> ci_contains ([CHR 0x22] @ ''a_c'') (r_content quote_row)
   \<and> \<not> ci_contains ([CHR 0x22] @ ''a_c'') (r_tags quote_row)
   \<and> search fts5_rejects '' '' (Integral 5) (quote_store\<lparr>memory_fts := [quote_row\<lparr>r_content := ''a b''\<rparr>]\<rparr>) = Inr []
   \<and> ci_contains '' '' ''a b''
   \<and> search fts5_rejects ([CHR 0x22] @ ''a'' @ [CHR 0x00] @ ''zzz'') (Integral 5)
        (quote_store\<lparr>memory_fts := [tail_row]\<rparr>) = Inr [like_result tail_row]
   \<and> \<not> ci_contains ([CHR 0x22] @ ''a'' @ [CHR 0x00] @ ''zzz'') (r_content tail_row)
   \<and> \<not> ci_contains ([CHR 0x22] @ ''a'' @ [CHR 0x00] @ ''zzz'') (r_tags tail_row)
   \<and> search fts5_rejects ([CHR 0x22] @ ''abc'') (Integral 5) (quote_store\<lparr>memory_fts := [nul_row]\<rparr>) = Inr []
   \<and> ci_contains ([CHR 0x22] @ ''abc'') (r_content nul_row)"
  unfolding fraction_limit_raises underscore_query_rows blank_query_rows nul_query_rows nul_row_rows
  by (simp add: quote_row_def tail_row_def nul_row_def ci_prefix_def lower_ascii_def)

section \<open>C7: the end of a session\<close>

lemma flush_store:
  "flushSession M now uid agentSummary st
     = st\<lparr>daily_dir := append_file (today now @ ''.md'')
              (serializeEntry (flush_entry now uid agentSummary st) @ [NL]) (daily_dir st),
          memory_fts := index_upsert (flush_entry now uid agentSummary st) (memory_fts st),
          shortTerm := []\<rparr>"
  by (simp add: flushSession_def save_def Let_def flush_save_entry flush_entry_def
      appendDailyLog_def clearShortTerm_def)

lemma flush_entry_wf:
  assumes "save_ok now uid (session_summary agentSummary (shortTerm st)) (flush_options now)"
  shows "wf_entry (flush_entry now uid agentSummary st)"
proof -
  let ?s = "session_summary agentSummary (shortTerm st)"
  have "tight (trim ?s)" using assms by (simp add: save_ok_def trim_tight_result)
  then show ?thesis
    using assms
    by (simp add: wf_entry_def meta_ok_def save_ok_def flush_entry_def flush_options_def nullish_def)
qed

text \<open>
  C7 (as amended). Take any store whose log directory lists each file once and whose
  log of the day, if there is one, is a closed text. \<open>flushSession\<close> with a clock
  reading and a fresh id that are tight one-line strings, and with a summary (the one
  given, or the one made from the window) that is not blank and has no separator line
  once trimmed, adds exactly one entry to what \<open>readAllEntries\<close> returns: kind \<open>log\<close>,
  tags \<open>session-summary\<close> and today's date, source \<open>system\<close>, the trimmed summary as
  content. The window is empty afterwards, and on an empty window with no summary
  given the content is \<open>Empty session.\<close>
\<close>

theorem flush_adds_one_entry:
  assumes "save_ok now uid (session_summary agentSummary (shortTerm st)) (flush_options now)"
    and "distinct (map fst (daily_dir st))"
    and "case map_of (daily_dir st) (today now @ ''.md'') of None \<Rightarrow> True | Some raw \<Rightarrow> closed_text raw"
  shows "mset (readAllEntries t (flushSession M now uid agentSummary st))
      = mset (readAllEntries t st) + {#flush_entry now uid agentSummary st#}
    \<and> shortTerm (flushSession M now uid agentSummary st) = []
    \<and> (agentSummary = None \<and> shortTerm st = []
        \<longrightarrow> content (flush_entry now uid agentSummary st) = ''Empty session.'')"
proof -
  let ?e = "flush_entry now uid agentSummary st"
  have wf: "wf_entry ?e" using assms(1) by (rule flush_entry_wf)
  have "mset (readDaily t (flushSession M now uid agentSummary st)) = mset (readDaily t st) + {#?e#}"
    using append_file_parse[OF assms(2) endsWith_md assms(3) wf, of t]
    by (simp add: readDaily_def flush_store)
  moreover have "readLongTerm t (flushSession M now uid agentSummary st) = readLongTerm t st"
    by (simp add: readLongTerm_def flush_store)
  ultimately have "mset (readAllEntries t (flushSession M now uid agentSummary st))
      = mset (readAllEntries t st) + {#?e#}"
    by (simp add: readAllEntries_def)
  moreover have "shortTerm (flushSession M now uid agentSummary st) = []"
    by (simp add: flush_store)
  moreover have "agentSummary = None \<and> shortTerm st = []
      \<longrightarrow> content ?e = ''Empty session.''"
    by (simp add: flush_entry_def session_summary_def trim_def is_ws_def)
  ultimately show ?thesis by blast
qed

text \<open>The store after two log saves holds a log of the day \<open>t3\<close>; the summary entry is
  appended to it.\<close>

lemma flush_logs_ok:
  "save_ok t3 ''u3'' (session_summary None (shortTerm (run 20 200 hist_logs (fresh t1)))) (flush_options t3)
   \<and> distinct (map fst (daily_dir (run 20 200 hist_logs (fresh t1))))
   \<and> (case map_of (daily_dir (run 20 200 hist_logs (fresh t1))) (today t3 @ ''.md'') of
        None \<Rightarrow> True | Some raw \<Rightarrow> closed_text raw)
   \<and> map_of (daily_dir (run 20 200 hist_logs (fresh t1))) (today t3 @ ''.md'') \<noteq> None
   \<and> shortTerm (run 20 200 hist_logs (fresh t1)) = []"
  by code_simp

theorem flush_adds_one_entry_witness:
  "save_ok t3 ''u3'' (session_summary None (shortTerm (run 20 200 hist_logs (fresh t1)))) (flush_options t3)
   \<and> distinct (map fst (daily_dir (run 20 200 hist_logs (fresh t1))))
   \<and> (case map_of (daily_dir (run 20 200 hist_logs (fresh t1))) (today t3 @ ''.md'') of
        None \<Rightarrow> True | Some raw \<Rightarrow> closed_text raw)
   \<and> map_of (daily_dir (run 20 200 hist_logs (fresh t1))) (today t3 @ ''.md'') \<noteq> None
   \<and> mset (readAllEntries t4 (flushSession 200 t3 ''u3'' None (run 20 200 hist_logs (fresh t1))))
      = mset (readAllEntries t4 (run 20 200 hist_logs (fresh t1)))
        + {#flush_entry t3 ''u3'' None (run 20 200 hist_logs (fresh t1))#}
   \<and> shortTerm (flushSession 200 t3 ''u3'' None (run 20 200 hist_logs (fresh t1))) = []
   \<and> content (flush_entry t3 ''u3'' None (run 20 200 hist_logs (fresh t1))) = ''Empty session.''"
proof -
  have h: "save_ok t3 ''u3'' (session_summary None (shortTerm (run 20 200 hist_logs (fresh t1)))) (flush_options t3)"
    "distinct (map fst (daily_dir (run 20 200 hist_logs (fresh t1))))"
    "case map_of (daily_dir (run 20 200 hist_logs (fresh t1))) (today t3 @ ''.md'') of
        None \<Rightarrow> True | Some raw \<Rightarrow> closed_text raw"
    and n: "map_of (daily_dir (run 20 200 hist_logs (fresh t1))) (today t3 @ ''.md'') \<noteq> None"
    and w: "shortTerm (run 20 200 hist_logs (fresh t1)) = []"
    using flush_logs_ok by blast+
  show ?thesis
    using h n w flush_adds_one_entry [OF h, where t = t4 and M = 200] by blast
qed

text \<open>
  C7 as stated fails for the summary argument \<open>""\<close>: \<open>??\<close> keeps it, the entry is written
  with no content, and the parser drops a block without content, so \<open>readAllEntries\<close>
  returns no new entry.
\<close>

lemma flush_blank_after: "readAllEntries t4 (flushSession 200 t2 ''u1'' (Some []) (fresh t1)) = []"
  by code_simp

lemma flush_blank_before: "readAllEntries t4 (fresh t1) = []"
  by code_simp

theorem flush_counterexample:
  "readAllEntries t4 (flushSession 200 t2 ''u1'' (Some []) (fresh t1)) = readAllEntries t4 (fresh t1)"
  by (simp only: flush_blank_after flush_blank_before)

section \<open>C8: the short-term window\<close>

lemma window_step:
  assumes "length (shortTerm st) \<le> MST"
  shows "shortTerm (addToShortTerm MST m st)
      = drop (length (shortTerm st @ [m]) - MST) (shortTerm st @ [m])"
proof (cases "length (shortTerm st @ [m]) > MST")
  case True
  with assms have "length (shortTerm st @ [m]) - MST = Suc 0" by simp
  moreover have "drop (Suc 0) (shortTerm st @ [m]) = tl (shortTerm st @ [m])"
    by (simp only: drop_Suc drop_0)
  ultimately have B: "drop (length (shortTerm st @ [m]) - MST) (shortTerm st @ [m]) = tl (shortTerm st @ [m])"
    by (simp only:)
  have A: "shortTerm (addToShortTerm MST m st) = tl (shortTerm st @ [m])"
    using True by (simp add: addToShortTerm_def)
  show ?thesis by (simp only: A B)
next
  case False
  then show ?thesis by (simp add: addToShortTerm_def)
qed

lemma window_run:
  "length (shortTerm st) \<le> MST \<Longrightarrow>
   shortTerm (run MST M (map Add msgs) st)
     = drop (length (shortTerm st @ msgs) - MST) (shortTerm st @ msgs)"
proof (induction msgs arbitrary: st)
  case Nil
  then show ?case by simp
next
  case (Cons m msgs)
  let ?st = "addToShortTerm MST m st"
  let ?w = "shortTerm st @ [m]"
  have w: "shortTerm ?st = drop (length ?w - MST) ?w"
    using Cons.prems by (rule window_step)
  then have len: "length (shortTerm ?st) \<le> MST" by simp
  have "shortTerm (run MST M (map Add msgs) ?st)
      = drop (length (shortTerm ?st @ msgs) - MST) (shortTerm ?st @ msgs)"
    using len by (rule Cons.IH)
  also have "\<dots> = drop (length (?w @ msgs) - MST) (?w @ msgs)"
  proof -
    define k where "k = length ?w - MST"
    have eq: "length (?w @ msgs) - MST = (length (drop k ?w @ msgs) - MST) + k"
      by (auto simp: k_def)
    have kl: "k - length ?w = 0" by (simp add: k_def)
    have "drop k (?w @ msgs) = drop k ?w @ drop (k - length ?w) msgs" by (rule drop_append)
    then have F: "drop k (?w @ msgs) = drop k ?w @ msgs" by (simp only: kl drop_0)
    have "drop ((length (drop k ?w @ msgs) - MST) + k) (?w @ msgs)
        = drop (length (drop k ?w @ msgs) - MST) (drop k (?w @ msgs))"
      by (rule drop_drop[symmetric])
    then have "drop (length (drop k ?w @ msgs) - MST) (drop k ?w @ msgs)
        = drop ((length (drop k ?w @ msgs) - MST) + k) (?w @ msgs)"
      by (simp only: F)
    then show ?thesis unfolding w k_def[symmetric] eq .
  qed
  finally show ?case by simp
qed

text \<open>
  C8. After any sequence of \<open>addToShortTerm\<close> calls on the empty window, the window holds
  the last \<open>MAX_SHORT_TERM\<close> messages of the sequence in arrival order (all of them
  while there are fewer), so its length never exceeds \<open>MAX_SHORT_TERM\<close>: each call
  beyond the bound evicts the head.
\<close>

theorem short_term_window:
  "shortTerm (run MST M (map Add msgs) (clearShortTerm st)) = drop (length msgs - MST) msgs
   \<and> length (shortTerm (run MST M (map Add msgs) (clearShortTerm st))) \<le> MST"
proof -
  have "length (shortTerm (clearShortTerm st)) \<le> MST" by (simp add: clearShortTerm_def)
  then have "shortTerm (run MST M (map Add msgs) (clearShortTerm st))
      = drop (length (shortTerm (clearShortTerm st) @ msgs) - MST) (shortTerm (clearShortTerm st) @ msgs)"
    by (rule window_run)
  then have "shortTerm (run MST M (map Add msgs) (clearShortTerm st)) = drop (length msgs - MST) msgs"
    by (simp add: clearShortTerm_def)
  then show ?thesis by simp
qed

section \<open>C9: forget\<close>

lemma length_filter_distinct_key:
  "distinct (map f xs) \<Longrightarrow> a \<in> set (map f xs) \<Longrightarrow> length (filter (\<lambda>x. f x \<noteq> a) xs) + 1 = length xs"
proof (induction xs)
  case Nil
  then show ?case by simp
next
  case (Cons x xs)
  show ?case
  proof (cases "f x = a")
    case True
    then have "a \<notin> set (map f xs)" using Cons.prems(1) by auto
    then have "filter (\<lambda>x. f x \<noteq> a) xs = xs" by (auto simp: filter_id_conv)
    then show ?thesis using True by simp
  next
    case False
    then show ?thesis using Cons by auto
  qed
qed

lemma forget_false_same: "\<not> fst (forget now i s) \<Longrightarrow> snd (forget now i s) = s"
  by (auto simp: forget_def split: option.splits if_splits)

lemma forget_daily: "daily_dir (snd (forget now i s)) = daily_dir s"
  by (auto simp: forget_def split: option.splits)

lemma filter_length_same: "(length (filter P xs) = length xs) = (\<forall>x\<in>set xs. P x)"
proof
  assume "length (filter P xs) = length xs"
  then have "filter P xs = xs" by (metis length_filter_less less_irrefl_nat filter_True)
  then show "\<forall>x\<in>set xs. P x" by (simp add: filter_id_conv)
next
  assume "\<forall>x\<in>set xs. P x"
  then show "length (filter P xs) = length xs" by simp
qed

text \<open>
  C9 (as amended). Take any store whose long-term file parses to well-formed entries,
  and a clock reading that is a tight one-line string. \<open>forget(id)\<close> returns true
  exactly when the long-term partition holds an entry with the id; then the long-term
  partition holds afterwards the entries it held before without those of that id, one
  entry fewer when the ids were distinct. When it returns false the whole state is as
  before, and in no case is a daily log changed.
\<close>

theorem forget_removes_entry:
  assumes "field_ok now" "list_all wf_entry (readLongTerm now st)"
  shows "fst (forget now i st) = (i \<in> set (map id_e (readLongTerm now st)))
    \<and> (fst (forget now i st)
        \<longrightarrow> readLongTerm t (snd (forget now i st))
            = filter (\<lambda>e. id_e e \<noteq> i) (readLongTerm now st))
    \<and> (fst (forget now i st) \<and> distinct (map id_e (readLongTerm now st))
        \<longrightarrow> length (readLongTerm t (snd (forget now i st))) + 1 = length (readLongTerm now st))
    \<and> (\<not> fst (forget now i st) \<longrightarrow> snd (forget now i st) = st)
    \<and> daily_dir (snd (forget now i st)) = daily_dir st
    \<and> readDaily t (snd (forget now i st)) = readDaily t st"
proof -
  let ?L = "readLongTerm now st"
  let ?F = "filter (\<lambda>e. id_e e \<noteq> i) ?L"
  have b: "fst (forget now i st) = (i \<in> set (map id_e ?L))"
    by (auto simp: forget_def readLongTerm_def filter_length_same split: option.splits)
  have wf: "list_all wf_entry ?F" using assms(2) by (simp add: list_all_iff)
  have p: "parseMemoryMd t (write_entries now ?F) = ?F"
    using wf assms(1) by (intro parseMemoryMd_write_entries) (simp_all add: field_ok_def)
  have a: "fst (forget now i st) \<longrightarrow> readLongTerm t (snd (forget now i st)) = ?F"
    using p by (auto simp: forget_def readLongTerm_def split: option.splits if_splits)
  have "fst (forget now i st) \<and> distinct (map id_e ?L)
      \<longrightarrow> length (readLongTerm t (snd (forget now i st))) + 1 = length ?L"
    using a b length_filter_distinct_key[of id_e ?L i] by simp
  then show ?thesis
    using a b by (simp add: forget_false_same forget_daily readDaily_def)
qed

lemma forget_hist_ok:
  "field_ok t4 \<and> list_all wf_entry (readLongTerm t4 (run 20 200 hist_facts (fresh t1)))
   \<and> distinct (map id_e (readLongTerm t4 (run 20 200 hist_facts (fresh t1))))
   \<and> fst (forget t4 ''a'' (run 20 200 hist_facts (fresh t1)))"
  by code_simp

theorem forget_removes_entry_witness:
  "field_ok t4 \<and> list_all wf_entry (readLongTerm t4 (run 20 200 hist_facts (fresh t1)))
   \<and> fst (forget t4 ''a'' (run 20 200 hist_facts (fresh t1)))
   \<and> ''a'' \<in> set (map id_e (readLongTerm t4 (run 20 200 hist_facts (fresh t1))))
   \<and> readLongTerm t1 (snd (forget t4 ''a'' (run 20 200 hist_facts (fresh t1))))
        = filter (\<lambda>e. id_e e \<noteq> ''a'') (readLongTerm t4 (run 20 200 hist_facts (fresh t1)))
   \<and> length (readLongTerm t1 (snd (forget t4 ''a'' (run 20 200 hist_facts (fresh t1))))) + 1
        = length (readLongTerm t4 (run 20 200 hist_facts (fresh t1)))
   \<and> daily_dir (snd (forget t4 ''a'' (run 20 200 hist_facts (fresh t1))))
        = daily_dir (run 20 200 hist_facts (fresh t1))"
proof -
  have h: "field_ok t4" "list_all wf_entry (readLongTerm t4 (run 20 200 hist_facts (fresh t1)))"
    and d: "distinct (map id_e (readLongTerm t4 (run 20 200 hist_facts (fresh t1))))"
    and f: "fst (forget t4 ''a'' (run 20 200 hist_facts (fresh t1)))"
    using forget_hist_ok by blast+
  show ?thesis
    using h d f forget_removes_entry [OF h, where i = "''a''" and t = t1] by blast
qed

text \<open>
  C9 as stated fails where the content of an entry holds a separator line: the text
  after it reads as a block of its own, here an entry \<open>c\<close>, and \<open>forget\<close> of the entry
  \<open>a\<close> rewrites the file so that \<open>c\<close> is gone as well.
\<close>

lemma spoof_before: "map id_e (readLongTerm t4 (run 20 200 hist_spoof (fresh t1))) = [''a'', ''c'']"
  by code_simp

lemma spoof_forget: "fst (forget t3 ''a'' (run 20 200 hist_spoof (fresh t1)))"
  by code_simp

lemma spoof_after: "readLongTerm t4 (snd (forget t3 ''a'' (run 20 200 hist_spoof (fresh t1)))) = []"
  by code_simp

theorem forget_counterexample:
  "map id_e (readLongTerm t4 (run 20 200 hist_spoof (fresh t1))) = [''a'', ''c'']
   \<and> fst (forget t3 ''a'' (run 20 200 hist_spoof (fresh t1)))
   \<and> readLongTerm t4 (snd (forget t3 ''a'' (run 20 200 hist_spoof (fresh t1)))) = []"
  using spoof_before spoof_forget spoof_after by simp

section \<open>C10: a log save leaves the long-term file alone\<close>

lemma filter_append_file:
  "filter (\<lambda>f. fst f \<noteq> name) (append_file name text files) = filter (\<lambda>f. fst f \<noteq> name) files"
proof (cases "map_of files name = None")
  case True
  then show ?thesis by (simp add: append_file_def)
next
  case False
  have "filter (\<lambda>f. fst f \<noteq> name) (map (\<lambda>f. if fst f = name then (fst f, snd f @ text) else f) files)
      = filter (\<lambda>f. fst f \<noteq> name) files"
    by (induction files) auto
  with False show ?thesis by (simp add: append_file_def)
qed

text \<open>
  C10. A save of kind \<open>log\<close> leaves \<open>MEMORY.md\<close> as it is, so the entries parsed from it
  are the same and nothing is trimmed; of the daily logs only today's file changes.
\<close>

theorem log_save_frame:
  assumes "opt_type options = Some ''log''"
  shows "memory_md (snd (save M now uid text options st)) = memory_md st
    \<and> readLongTerm t (snd (save M now uid text options st)) = readLongTerm t st
    \<and> filter (\<lambda>f. fst f \<noteq> today now @ ''.md'') (daily_dir (snd (save M now uid text options st)))
        = filter (\<lambda>f. fst f \<noteq> today now @ ''.md'') (daily_dir st)"
  using assms
  by (simp add: save_def Let_def save_entry_def nullish_def appendDailyLog_def readLongTerm_def
      filter_append_file)

theorem log_save_frame_witness:
  "opt_type log_options = Some ''log''
   \<and> memory_md (snd (save 200 t2 ''u1'' ''note to self'' log_options (fresh t1))) = memory_md (fresh t1)
   \<and> readLongTerm t3 (snd (save 200 t2 ''u1'' ''note to self'' log_options (fresh t1)))
       = readLongTerm t3 (fresh t1)
   \<and> filter (\<lambda>f. fst f \<noteq> today t2 @ ''.md'')
         (daily_dir (snd (save 200 t2 ''u1'' ''note to self'' log_options (fresh t1))))
       = filter (\<lambda>f. fst f \<noteq> today t2 @ ''.md'') (daily_dir (fresh t1))"
proof -
  have h: "opt_type log_options = Some ''log''" by (simp add: log_options_def)
  show ?thesis
    using h log_save_frame [OF h, of 200 t2 "''u1''" "''note to self''" "fresh t1" t3]
    by simp
qed

end
